theory Spec2Isabelle
  imports Complex_Main "HOL-Library.Word" "HOL-Library.Monad_Syntax" "HOL-Library.Sublist"
begin

unbundle bit_operations_syntax

section \<open>JavaScript strings\<close>

text \<open>
  A JavaScript string is a sequence of UTF-16 code units; \<open>charCodeAt\<close> reads one of
  them as a number. A string is modelled as the list of its code units.
\<close>

type_synonym jsstring = "nat list"

definition js :: "string \<Rightarrow> jsstring" where
  "js s = map of_char s"

text \<open>
  The characters matched by \<open>\s\<close> in a regular expression and removed by
  \<open>String.prototype.trim\<close>: ECMAScript's WhiteSpace and LineTerminator.
\<close>

definition isWhiteSpace :: "nat \<Rightarrow> bool" where
  "isWhiteSpace c \<longleftrightarrow>
     c = 0x09 \<or> c = 0x0A \<or> c = 0x0B \<or> c = 0x0C \<or> c = 0x0D \<or> c = 0x20 \<or> c = 0xA0
     \<or> c = 0x1680 \<or> (0x2000 \<le> c \<and> c \<le> 0x200A) \<or> c = 0x2028 \<or> c = 0x2029
     \<or> c = 0x202F \<or> c = 0x205F \<or> c = 0x3000 \<or> c = 0xFEFF"

definition trim :: "jsstring \<Rightarrow> jsstring" where
  "trim s = rev (dropWhile isWhiteSpace (rev (dropWhile isWhiteSpace s)))"

text \<open>
  \<open>toLowerCase\<close>, one code unit at a time. The letters \<open>A\<close> to \<open>Z\<close> go to \<open>a\<close> to
  \<open>z\<close>; U+0130 goes to \<open>i\<close> followed by U+0307 and U+212A (the Kelvin sign) to \<open>k\<close>.
  These are the only code units whose lower-case form contains an ASCII letter, a digit
  or white space. Every other code unit is left as it is here: its Unicode lower-case
  form lies outside \<open>[a-z0-9\s]\<close> as the unit itself does, and \<open>hashQuestion\<close> deletes
  it in its next step.
\<close>

definition toLowerCaseUnit :: "nat \<Rightarrow> jsstring" where
  "toLowerCaseUnit c =
     (if 0x41 \<le> c \<and> c \<le> 0x5A then [c + 0x20]
      else if c = 0x130 then [0x69, 0x307]
      else if c = 0x212A then [0x6B]
      else [c])"

definition toLowerCase :: "jsstring \<Rightarrow> jsstring" where
  "toLowerCase s = concat (map toLowerCaseUnit s)"

text \<open>The character class \<open>[a-z0-9\s]\<close>.\<close>

definition isLowerAlnumOrSpace :: "nat \<Rightarrow> bool" where
  "isLowerAlnumOrSpace c \<longleftrightarrow>
     (0x61 \<le> c \<and> c \<le> 0x7A) \<or> (0x30 \<le> c \<and> c \<le> 0x39) \<or> isWhiteSpace c"

text \<open>\<open>s.replace(/[^a-z0-9\s]/g, '')\<close>\<close>

definition removeNonAlnum :: "jsstring \<Rightarrow> jsstring" where
  "removeNonAlnum s = filter isLowerAlnumOrSpace s"

text \<open>\<open>s.replace(/\s+/g, ' ')\<close>: every maximal run of white space becomes one space.\<close>

function collapseWhiteSpace :: "jsstring \<Rightarrow> jsstring" where
  "collapseWhiteSpace [] = []"
| "collapseWhiteSpace (c # cs) =
     (if isWhiteSpace c then 0x20 # collapseWhiteSpace (dropWhile isWhiteSpace cs)
      else c # collapseWhiteSpace cs)"
  by pat_completeness auto
termination
  by (relation "measure length") (auto simp: less_Suc_eq_le length_dropWhile_le)

text \<open>\<open>Number.prototype.toString(16)\<close> and \<open>toString(10)\<close> on a non-negative integer.\<close>

definition digitUnit :: "nat \<Rightarrow> nat" where
  "digitUnit d = (if d < 10 then 0x30 + d else 0x57 + d)"

fun toStringRadix :: "nat \<Rightarrow> nat \<Rightarrow> jsstring" where
  "toStringRadix r n =
     (if r < 2 \<or> n < r then [digitUnit n]
      else toStringRadix r (n div r) @ [digitUnit (n mod r)])"

declare toStringRadix.simps [simp del]

section \<open>The answer cache (\<open>src/utils/storage.ts\<close>, class \<open>QACache\<close>)\<close>

text \<open>
  The 32-bit integer operators of JavaScript on numbers that are integers: \<open>ToInt32\<close>
  wraps into \<open>[-2^31, 2^31)\<close>, \<open>a << n\<close> shifts the wrapped operand and wraps again,
  \<open>a & b\<close> is the bitwise conjunction of the wrapped operands.
\<close>

definition toInt32 :: "int \<Rightarrow> int" where
  "toInt32 n = (n + 2 ^ 31) mod 2 ^ 32 - 2 ^ 31"

definition shl32 :: "int \<Rightarrow> nat \<Rightarrow> int" where
  "shl32 a n = toInt32 (push_bit (n mod 32) (toInt32 a))"

definition and32 :: "int \<Rightarrow> int \<Rightarrow> int" where
  "and32 a b = toInt32 a AND toInt32 b"

record QARecord =
  questionHash :: jsstring
  answerIndex :: int
  correct :: bool
  evidence :: "jsstring list option"

type_synonym qa_cache = "jsstring \<rightharpoonup> QARecord"

definition normalizeQuestion :: "jsstring \<Rightarrow> jsstring" where
  "normalizeQuestion question =
     trim (collapseWhiteSpace (removeNonAlnum (toLowerCase question)))"

text \<open>The loop of \<open>hashQuestion\<close> over the code units of the normalized text.\<close>

fun hashLoop :: "int \<Rightarrow> jsstring \<Rightarrow> int" where
  "hashLoop hash [] = hash"
| "hashLoop hash (c # cs) =
     (let hash1 = (shl32 hash 5 + hash) + int c;
          hash2 = and32 hash1 hash1
      in hashLoop hash2 cs)"

definition hashQuestion :: "jsstring \<Rightarrow> jsstring" where
  "hashQuestion question =
     (let normalized = normalizeQuestion question;
          hash = hashLoop 5381 normalized
      in toStringRadix 16 (nat \<bar>hash\<bar>))"

definition lookup :: "qa_cache \<Rightarrow> jsstring \<Rightarrow> QARecord option" where
  "lookup cache question = cache (hashQuestion question)"

definition store :: "jsstring \<Rightarrow> int \<Rightarrow> bool \<Rightarrow> jsstring list option \<Rightarrow> qa_cache \<Rightarrow> qa_cache" where
  "store question idx isCorrect ev cache =
     (let hash = hashQuestion question;
          record = \<lparr>questionHash = hash, answerIndex = idx, correct = isCorrect, evidence = ev\<rparr>
      in case cache hash of
           Some existing \<Rightarrow>
             if correct existing \<and> \<not> isCorrect then cache else cache(hash \<mapsto> record)
         | None \<Rightarrow> cache(hash \<mapsto> record))"

section \<open>The metrics store (\<open>src/utils/storage.ts\<close>, class \<open>MetricsStore\<close>)\<close>

datatype run_status = Ok | Failed | Skipped

datatype points_source = Click | Search | Quiz

record RunMetric =
  timestamp :: jsstring
  handler :: jsstring
  status :: run_status
  durationMs :: int
  attempts :: int

record DailyPoints =
  date :: jsstring
  points :: int
  source :: points_source

record MetricsData =
  runs :: "RunMetric list"
  dailyPoints :: "DailyPoints list"

text \<open>\<open>xs.slice(-n)\<close>: the last \<open>n\<close> elements, all of them when there are fewer.\<close>

definition sliceLast :: "nat \<Rightarrow> 'a list \<Rightarrow> 'a list" where
  "sliceLast n xs = drop (length xs - n) xs"

text \<open>\<open>xs.findIndex(p)\<close>; the result \<open>-1\<close> is \<open>None\<close>.\<close>

fun findIndex :: "('a \<Rightarrow> bool) \<Rightarrow> 'a list \<Rightarrow> nat option" where
  "findIndex p [] = None"
| "findIndex p (d # ds) = (if p d then Some 0 else map_option Suc (findIndex p ds))"

text \<open>
  \<open>recordRun\<close>; the time stamp \<open>new Date().toISOString()\<close> is the argument \<open>now\<close>. The
  open \<open>meta\<close> map of a run is carried along unread and is left out.
\<close>

definition recordRun ::
  "jsstring \<Rightarrow> jsstring \<Rightarrow> run_status \<Rightarrow> int \<Rightarrow> int \<Rightarrow> MetricsData \<Rightarrow> MetricsData" where
  "recordRun now h st dur att data =
     data\<lparr>runs := sliceLast 999 (runs data) @
        [\<lparr>timestamp = now, handler = h, status = st, durationMs = dur, attempts = att\<rparr>]\<rparr>"

text \<open>
  \<open>recordPoints\<close>; the day \<open>new Date().toISOString().split('T')[0]\<close> is the argument
  \<open>today\<close>.
\<close>

definition recordPoints ::
  "jsstring \<Rightarrow> int \<Rightarrow> points_source \<Rightarrow> MetricsData \<Rightarrow> MetricsData" where
  "recordPoints today pts src data =
     (case findIndex (\<lambda>d. date d = today \<and> source d = src) (dailyPoints data) of
        Some existingIndex \<Rightarrow>
          (let updated = dailyPoints data;
               updated' = updated[existingIndex :=
                  (updated ! existingIndex)\<lparr>points := points (updated ! existingIndex) + pts\<rparr>]
           in data\<lparr>dailyPoints := updated'\<rparr>)
      | None \<Rightarrow>
          data\<lparr>dailyPoints := sliceLast 365 (dailyPoints data) @
             [\<lparr>date = today, points = pts, source = src\<rparr>]\<rparr>)"

definition emptyMetrics :: MetricsData where
  "emptyMetrics = \<lparr>runs = [], dailyPoints = []\<rparr>"

text \<open>
  The days of one year as \<open>toISOString\<close> prints them, \<open>2025-01-01\<close> to \<open>2025-12-31\<close>:
  the values of \<open>today\<close> over a year of daily runs.
\<close>

definition twoDigits :: "nat \<Rightarrow> jsstring" where
  "twoDigits n = [0x30 + n div 10, 0x30 + n mod 10]"

definition isoDate2025 :: "nat \<Rightarrow> nat \<Rightarrow> jsstring" where
  "isoDate2025 m d = js ''2025-'' @ twoDigits m @ js ''-'' @ twoDigits d"

definition monthLengths2025 :: "(nat \<times> nat) list" where
  "monthLengths2025 =
     [(1, 31), (2, 28), (3, 31), (4, 30), (5, 31), (6, 30),
      (7, 31), (8, 31), (9, 30), (10, 31), (11, 30), (12, 31)]"

definition days2025 :: "jsstring list" where
  "days2025 = concat (map (\<lambda>(m, len). map (isoDate2025 m) [1..<len + 1]) monthLengths2025)"

section \<open>Pointer motion (\<open>src/utils/humanizer.ts\<close>)\<close>

text \<open>
  Numbers are modelled as reals: the claims about coordinates are stated up to floating
  rounding. The successive results of \<open>Math.random()\<close> during one call are a function
  \<open>rnd\<close> from the number of the draw to its value in \<open>[0, 1)\<close>.
\<close>

record Point =
  pointX :: real
  pointY :: real

record BoundingBox =
  boxX :: real
  boxY :: real
  width :: real
  height :: real

text \<open>
  The delay of \<open>randomDelay(min, max)\<close> in milliseconds, from the draw \<open>r\<close>.
\<close>

definition randomDelay :: "real \<Rightarrow> real \<Rightarrow> real \<Rightarrow> real" where
  "randomDelay lo hi r = real_of_int \<lfloor>r * (hi - lo + 1)\<rfloor> + lo"

text \<open>
  \<open>generateMousePath\<close>, for a whole number of steps; the loop \<open>for (i = 0; i <= steps; i++)\<close>
  is the map over \<open>0, ..., steps\<close>. The four draws are \<open>rnd 0\<close> to \<open>rnd 3\<close>.
\<close>

definition generateMousePath ::
  "real \<Rightarrow> real \<Rightarrow> real \<Rightarrow> real \<Rightarrow> nat \<Rightarrow> (nat \<Rightarrow> real) \<Rightarrow> Point list" where
  "generateMousePath startX startY endX endY steps rnd =
     (let control1X = startX + (endX - startX) * 0.3 + (rnd 0 - 0.5) * 50;
          control1Y = startY + (endY - startY) * 0.1 + (rnd 1 - 0.5) * 50;
          control2X = startX + (endX - startX) * 0.7 + (rnd 2 - 0.5) * 50;
          control2Y = startY + (endY - startY) * 0.9 + (rnd 3 - 0.5) * 50
      in map (\<lambda>i.
           let t = real i / real steps
           in \<lparr>pointX = (1 - t) ^ 3 * startX + 3 * (1 - t) ^ 2 * t * control1X
                         + 3 * (1 - t) * t ^ 2 * control2X + t ^ 3 * endX,
               pointY = (1 - t) ^ 3 * startY + 3 * (1 - t) ^ 2 * t * control1Y
                         + 3 * (1 - t) * t ^ 2 * control2Y + t ^ 3 * endY\<rparr>)
         [0..<steps + 1])"

text \<open>
  What a click does to the page: pointer events and timer waits, in order. The page is
  the bounding box each selector resolves to (\<open>None\<close> for \<open>null\<close>) and the events
  issued so far.
\<close>

datatype page_event = MouseMove real real | MouseDown | MouseUp | Wait real

datatype error = Error jsstring

record Page =
  boundingBoxOf :: "jsstring \<Rightarrow> BoundingBox option"
  events :: "page_event list"

text \<open>The target point of a click: lines 58-59 and 92-93, from the draws \<open>rx\<close>, \<open>ry\<close>.\<close>

definition clickTarget :: "BoundingBox \<Rightarrow> real \<Rightarrow> real \<Rightarrow> Point" where
  "clickTarget box rx ry =
     \<lparr>pointX = boxX box + width box / 2 + (rx - 0.5) * (width box * 0.8),
      pointY = boxY box + height box / 2 + (ry - 0.5) * (height box * 0.8)\<rparr>"

text \<open>
  The body shared by \<open>clickHuman\<close> and \<open>clickLocatorHuman\<close> once the box is known.
  Draws 0 and 1 place the target, 2 to 5 bend the path, one draw follows each move, and
  the last three are the delays around the button events.
\<close>

definition movePath :: "Point list \<Rightarrow> (nat \<Rightarrow> real) \<Rightarrow> page_event list" where
  "movePath path rnd =
     concat (map (\<lambda>(i, point). [MouseMove (pointX point) (pointY point), Wait (rnd i * 5)])
       (enumerate 0 path))"

definition clickEvents :: "BoundingBox \<Rightarrow> (nat \<Rightarrow> real) \<Rightarrow> page_event list" where
  "clickEvents box rnd =
     (let target = clickTarget box (rnd 0) (rnd 1);
          startX = 0;
          startY = 0;
          path = generateMousePath startX startY (pointX target) (pointY target) 50
                   (\<lambda>i. rnd (i + 2));
          n = length path
      in movePath path (\<lambda>i. rnd (i + 6)) @
         [Wait (randomDelay 100 300 (rnd (n + 6))), MouseDown,
          Wait (randomDelay 50 150 (rnd (n + 7))), MouseUp,
          Wait (randomDelay 500 1000 (rnd (n + 8)))])"

definition clickHuman :: "Page \<Rightarrow> jsstring \<Rightarrow> (nat \<Rightarrow> real) \<Rightarrow> error + Page" where
  "clickHuman page selector rnd =
     (case boundingBoxOf page selector of
        None \<Rightarrow> Inl (Error (js ''Element '' @ selector @ js '' not visible''))
      | Some box \<Rightarrow> Inr (page\<lparr>events := events page @ clickEvents box rnd\<rparr>))"

text \<open>
  \<open>clickLocatorHuman\<close>: the locator is given as the box it resolves to.
\<close>

definition clickLocatorHuman :: "Page \<Rightarrow> BoundingBox option \<Rightarrow> (nat \<Rightarrow> real) \<Rightarrow> error + Page" where
  "clickLocatorHuman page locatorBox rnd =
     (case locatorBox of
        None \<Rightarrow> Inl (Error (js ''Element not visible''))
      | Some box \<Rightarrow> Inr (page\<lparr>events := events page @ clickEvents box rnd\<rparr>))"

text \<open>The pointer events among the events of a page, without the waits.\<close>

fun isPointerEvent :: "page_event \<Rightarrow> bool" where
  "isPointerEvent (Wait ms) = False"
| "isPointerEvent e = True"

section \<open>Quiz discovery (\<open>src/handlers/quiz-handler.ts\<close>, class \<open>QuizHandler\<close>)\<close>

text \<open>
  What \<open>findQuizActivities\<close> can see of an element: the number of completion markers
  under it, its text content (\<open>None\<close> for \<open>null\<close>), and the number of lock markers
  (lock icon, \<open>points-locked\<close>) under it. The page gives, for each selector, the
  elements it matches in document order.
\<close>

record QuizCard =
  completedMarkers :: nat
  lockMarkers :: nat
  textContent :: "jsstring option"

type_synonym quiz_page = "jsstring \<Rightarrow> QuizCard list"

definition quizSelectors :: "jsstring list" where
  \<open>quizSelectors =
     [js ''mee-card:has([class*="quiz"])'',
      js ''mee-card:has([aria-label*="quiz" i])'',
      js ''mee-card:has([aria-label*="poll" i])'',
      js ''mee-card:has([aria-label*="this or that" i])'',
      js ''[data-bi-id*="quiz"]'',
      js ''[data-bi-id*="poll"]'',
      js ''.quiz-card'']\<close>

text \<open>
  The inner loop over the elements of one selector; the state is the set
  \<open>processedIndices\<close> and the list \<open>quizzes\<close>.
\<close>

fun scanElements ::
  "QuizCard list \<Rightarrow> jsstring set \<times> QuizCard list \<Rightarrow> jsstring set \<times> QuizCard list" where
  "scanElements [] st = st"
| "scanElements (element # rest) (processedIndices, quizzes) =
     (let isCompleted = completedMarkers element > 0
      in if \<not> isCompleted then
           (let text = (case textContent element of
                          Some t \<Rightarrow> if t \<noteq> [] then t else []
                        | None \<Rightarrow> [])
            in if text \<notin> processedIndices
               then scanElements rest (insert text processedIndices, quizzes @ [element])
               else scanElements rest (processedIndices, quizzes))
         else scanElements rest (processedIndices, quizzes))"

definition findQuizActivities :: "quiz_page \<Rightarrow> QuizCard list" where
  "findQuizActivities page =
     snd (foldl (\<lambda>st selector. scanElements (page selector) st) ({}, []) quizSelectors)"

section \<open>Activity discovery (\<open>ClickHandler\<close>)\<close>

datatype activity_type = Standard | Explore

text \<open>A locator is an opaque handle.\<close>

type_synonym locator = nat

record ActivityInfo =
  index :: nat
  title :: jsstring
  selector :: jsstring
  isCompleted :: bool
  locator :: locator
  activityType :: activity_type
  description :: "jsstring option"

text \<open>
  What \<open>processCard\<close> asks of a card. Each query is a call into the browser that can
  be rejected (\<open>Inl\<close>); \<open>textContent\<close> of the first title or paragraph element is
  rejected when there is no such element.
\<close>

record Card =
  cardVisible :: "error + bool"
  completionMarkers :: "error + nat"
  pointsMarkers :: "error + nat"
  quizMarkers :: "error + nat"
  titleText :: "error + jsstring option"
  descriptionText :: "error + jsstring option"
  linkCount :: "error + nat"
  firstLink :: locator

record Dashboard =
  moreByHeading :: "Card list"
  moreByXPath :: "Card list"
  exploreCards :: "Card list"

text \<open>\<open>await\<close> on a call that can be rejected: a rejection leaves the \<open>try\<close> block.\<close>

definition awaitThen :: "error + 'a \<Rightarrow> ('a \<Rightarrow> error + 'b) \<Rightarrow> error + 'b" where
  "awaitThen r f = (case r of Inl e \<Rightarrow> Inl e | Inr v \<Rightarrow> f v)"

text \<open>
  The body of \<open>processCard\<close> inside its \<open>try\<close>; \<open>Inr None\<close> is \<open>return null\<close>. The
  points and quiz markers are counted for a standard card only. A rejection of the
  description query alone is caught on the spot and gives \<open>undefined\<close>.
\<close>

definition processCardBody :: "Card \<Rightarrow> activity_type \<Rightarrow> nat \<Rightarrow> error + ActivityInfo option" where
  "processCardBody cardEl ty idx =
     awaitThen (cardVisible cardEl) (\<lambda>visible.
     if \<not> visible then Inr None else
     awaitThen (completionMarkers cardEl) (\<lambda>completed.
     if completed > 0 then Inr None else
     awaitThen (if ty = Standard then pointsMarkers cardEl else Inr 1) (\<lambda>hasPoints.
     if ty = Standard \<and> \<not> hasPoints > 0 then Inr None else
     awaitThen (if ty = Standard then quizMarkers cardEl else Inr 0) (\<lambda>isQuiz.
     if ty = Standard \<and> isQuiz > 0 then Inr None else
     awaitThen (titleText cardEl) (\<lambda>titleContent.
     let fallback = js ''Activity #'' @ toStringRadix 10 idx;
         title0 = (case titleContent of
                     Some t \<Rightarrow> if t \<noteq> [] then t else fallback
                   | None \<Rightarrow> fallback);
         description0 = (case descriptionText cardEl of
                           Inl e \<Rightarrow> None
                         | Inr d \<Rightarrow> d)
     in awaitThen (linkCount cardEl) (\<lambda>links.
        if links = 0 then Inr None else
        Inr (Some \<lparr>index = idx, title = trim title0, selector = js ''placeholder'',
                   isCompleted = completed > 0, locator = firstLink cardEl,
                   activityType = ty, description = map_option trim description0\<rparr>)))))))"

text \<open>\<open>processCard\<close>: the \<open>catch\<close> turns every rejection into \<open>null\<close>.\<close>

definition processCard :: "Card \<Rightarrow> activity_type \<Rightarrow> nat \<Rightarrow> ActivityInfo option" where
  "processCard cardEl ty idx =
     (case processCardBody cardEl ty idx of Inl e \<Rightarrow> None | Inr info \<Rightarrow> info)"

text \<open>
  One of the two loops of \<open>findClickableActivities\<close> over the cards of a section; the
  index handed to \<open>processCard\<close> is \<open>activities.length\<close>.
\<close>

fun collectCards :: "activity_type \<Rightarrow> Card list \<Rightarrow> ActivityInfo list \<Rightarrow> ActivityInfo list" where
  "collectCards ty [] activities = activities"
| "collectCards ty (cardEl # cards) activities =
     (case processCard cardEl ty (length activities) of
        Some info \<Rightarrow> collectCards ty cards (activities @ [info])
      | None \<Rightarrow> collectCards ty cards activities)"

definition findClickableActivities :: "Dashboard \<Rightarrow> ActivityInfo list" where
  "findClickableActivities page =
     (let moreActivities =
            (if length (moreByHeading page) = 0 then moreByXPath page else moreByHeading page);
          activities = collectCards Standard moreActivities []
      in collectCards Explore (exploreCards page) activities)"

section \<open>The explore query (\<open>ClickHandler\<close>)\<close>

text \<open>
  The regular expression \<open>/^search\s+on\s+bing\s+(?:to|for)\s*[:\-(U+2013)]?\s*/i\<close>, piece by
  piece; each piece returns what is left of the input after its match. Without the
  \<open>u\<close> flag, a letter of the pattern matches itself and its ASCII capital only.
\<close>

definition eqIgnoreCase :: "nat \<Rightarrow> nat \<Rightarrow> bool" where
  "eqIgnoreCase p c \<longleftrightarrow> c = p \<or> (0x41 \<le> c \<and> c \<le> 0x5A \<and> c + 0x20 = p)"

fun matchLiteral :: "jsstring \<Rightarrow> jsstring \<Rightarrow> jsstring option" where
  "matchLiteral [] s = Some s"
| "matchLiteral (p # ps) [] = None"
| "matchLiteral (p # ps) (c # cs) = (if eqIgnoreCase p c then matchLiteral ps cs else None)"

text \<open>\<open>\s+\<close> and \<open>\s*\<close> are greedy, and nothing after them can match white space.\<close>

definition matchSpaces1 :: "jsstring \<Rightarrow> jsstring option" where
  "matchSpaces1 s =
     (case s of
        [] \<Rightarrow> None
      | c # cs \<Rightarrow> if isWhiteSpace c then Some (dropWhile isWhiteSpace cs) else None)"

definition matchSpaces0 :: "jsstring \<Rightarrow> jsstring" where
  "matchSpaces0 s = dropWhile isWhiteSpace s"

text \<open>The optional separator: a colon, a hyphen or an en dash (U+2013), when there is one.\<close>

definition matchSeparator :: "jsstring \<Rightarrow> jsstring" where
  "matchSeparator s =
     (case s of
        [] \<Rightarrow> s
      | c # cs \<Rightarrow> if c = 0x3A \<or> c = 0x2D \<or> c = 0x2013 then cs else s)"

text \<open>The alternative \<open>(?:to|for)\<close>: \<open>to\<close> is tried first.\<close>

definition matchToOrFor :: "jsstring \<Rightarrow> jsstring option" where
  "matchToOrFor s =
     (case matchLiteral (js ''to'') s of
        Some r \<Rightarrow> Some r
      | None \<Rightarrow> matchLiteral (js ''for'') s)"

definition matchSearchPhrase :: "jsstring \<Rightarrow> jsstring option" where
  "matchSearchPhrase s =
     do {
       s1 \<leftarrow> matchLiteral (js ''search'') s;
       s2 \<leftarrow> matchSpaces1 s1;
       s3 \<leftarrow> matchLiteral (js ''on'') s2;
       s4 \<leftarrow> matchSpaces1 s3;
       s5 \<leftarrow> matchLiteral (js ''bing'') s4;
       s6 \<leftarrow> matchSpaces1 s5;
       s7 \<leftarrow> matchToOrFor s6;
       Some (matchSpaces0 (matchSeparator (matchSpaces0 s7)))
     }"

text \<open>\<open>s.replace(/^search.../i, '')\<close>: the match is cut off, a string without one is kept.\<close>

definition stripSearchPhrase :: "jsstring \<Rightarrow> jsstring" where
  "stripSearchPhrase s = (case matchSearchPhrase s of Some rest \<Rightarrow> rest | None \<Rightarrow> s)"

definition normalizeExploreQuery :: "jsstring \<Rightarrow> jsstring" where
  "normalizeExploreQuery text =
     (let trimmed = trim text
      in if trimmed = [] then []
         else let cleaned = trim (stripSearchPhrase trimmed)
              in if cleaned \<noteq> [] then cleaned else trimmed)"

definition getExploreQuery :: "ActivityInfo \<Rightarrow> jsstring" where
  "getExploreQuery activity =
     (let fromDescription =
            (case description activity of
               Some d \<Rightarrow> if d \<noteq> [] then normalizeExploreQuery d else []
             | None \<Rightarrow> [])
      in if fromDescription \<noteq> [] then fromDescription
         else normalizeExploreQuery (title activity))"

section \<open>Concrete inputs\<close>

text \<open>
  A quiz card that is not completed but locked, alone on the page under the selector
  \<open>.quiz-card\<close>: the card of the repository's test
  \<open>should skip locked cards in sneak-peek section\<close>.
\<close>

definition lockedCard :: QuizCard where
  "lockedCard =
     \<lparr>completedMarkers = 0, lockMarkers = 1, textContent = Some (js ''Tomorrow Quiz'')\<rparr>"

definition lockedPage :: quiz_page where
  "lockedPage sel = (if sel = js ''.quiz-card'' then [lockedCard] else [])"

text \<open>Two cards of the More-activities section with the same title and different links.\<close>

definition shopCard :: Card where
  "shopCard =
     \<lparr>cardVisible = Inr True, completionMarkers = Inr 0, pointsMarkers = Inr 1,
      quizMarkers = Inr 0, titleText = Inr (Some (js ''Shop deals'')),
      descriptionText = Inr (Some (js ''Find offers'')), linkCount = Inr 1, firstLink = 7\<rparr>"

definition shopPage :: Dashboard where
  "shopPage =
     \<lparr>moreByHeading = [shopCard, shopCard\<lparr>firstLink := 8\<rparr>], moreByXPath = [],
      exploreCards = []\<rparr>"

text \<open>
  Two cards of the Explore section. The paragraph of the first reads
  \<open>Search on Bing for\<close> with a space before and after it, as the text content of an
  element often has. The paragraph of the second is blank, and its heading carries the
  phrase.
\<close>

definition whalesCard :: Card where
  "whalesCard =
     \<lparr>cardVisible = Inr True, completionMarkers = Inr 0, pointsMarkers = Inr 0,
      quizMarkers = Inr 0, titleText = Inr (Some (js ''Whales'')),
      descriptionText = Inr (Some (js '' Search on Bing for '')), linkCount = Inr 1,
      firstLink = 3\<rparr>"

definition pizzaCard :: Card where
  "pizzaCard =
     \<lparr>cardVisible = Inr True, completionMarkers = Inr 0, pointsMarkers = Inr 0,
      quizMarkers = Inr 0, titleText = Inr (Some (js ''Search on Bing for best pizza'')),
      descriptionText = Inr (Some (js ''  '')), linkCount = Inr 1, firstLink = 4\<rparr>"

definition explorePage :: Dashboard where
  "explorePage =
     \<lparr>moreByHeading = [], moreByXPath = [], exploreCards = [whalesCard, pizzaCard]\<rparr>"

text \<open>The button of the repository's humanizer test, and a page that shows it.\<close>

definition buttonBox :: BoundingBox where
  "buttonBox = \<lparr>boxX = 100, boxY = 100, width = 50, height = 30\<rparr>"

definition buttonPage :: Page where
  "buttonPage =
     \<lparr>boundingBoxOf = (\<lambda>sel. if sel = js ''#test-button'' then Some buttonBox else None),
      events = []\<rparr>"

section \<open>What the properties are stated with\<close>

text \<open>
  The cards that discovery accepts, and the entry it makes of one: a card is accepted when
  it is visible, carries no completion marker, in the More-activities section shows the
  points badge and no quiz marker, has a title element that can be read, and has a link.
\<close>

definition isPositive :: "error + nat \<Rightarrow> bool" where
  "isPositive r = (case r of Inl e \<Rightarrow> False | Inr n \<Rightarrow> n > 0)"

definition isResolved :: "error + 'a \<Rightarrow> bool" where
  "isResolved r = (case r of Inl e \<Rightarrow> False | Inr v \<Rightarrow> True)"

definition acceptsCard :: "activity_type \<Rightarrow> Card \<Rightarrow> bool" where
  "acceptsCard ty c \<longleftrightarrow>
     cardVisible c = Inr True \<and> completionMarkers c = Inr 0
     \<and> (ty = Explore \<or> (isPositive (pointsMarkers c) \<and> quizMarkers c = Inr 0))
     \<and> isResolved (titleText c) \<and> isPositive (linkCount c)"

definition entryOf :: "Card \<Rightarrow> activity_type \<Rightarrow> nat \<Rightarrow> ActivityInfo" where
  "entryOf c ty i =
     \<lparr>index = i,
      title = trim (case titleText c of
                      Inr (Some t) \<Rightarrow> if t = [] then js ''Activity #'' @ toStringRadix 10 i else t
                    | _ \<Rightarrow> js ''Activity #'' @ toStringRadix 10 i),
      selector = js ''placeholder'', isCompleted = False, locator = firstLink c,
      activityType = ty,
      description = (case descriptionText c of Inr (Some d) \<Rightarrow> Some (trim d) | _ \<Rightarrow> None)\<rparr>"

text \<open>
  The leading phrase as a set of strings: the words \<open>search\<close>, \<open>on\<close>, \<open>bing\<close> and then
  \<open>to\<close> or \<open>for\<close>, in any mix of capitals and small letters, with white space between
  them; after that, white space or none, a colon, hyphen or en dash or none, and white
  space or none.
\<close>

definition lowerAscii :: "nat \<Rightarrow> nat" where
  "lowerAscii c = (if 0x41 \<le> c \<and> c \<le> 0x5A then c + 0x20 else c)"

text \<open>A string that reads as the word, given in small letters, once its capitals are made small.\<close>

definition sameIgnoringCase :: "jsstring \<Rightarrow> jsstring \<Rightarrow> bool" where
  "sameIgnoringCase word w \<longleftrightarrow> map lowerAscii w = word"

definition isSeparator :: "nat \<Rightarrow> bool" where
  "isSeparator c \<longleftrightarrow> c = 0x3A \<or> c = 0x2D \<or> c = 0x2013"

definition isSearchPhrase :: "jsstring \<Rightarrow> bool" where
  "isSearchPhrase p \<longleftrightarrow>
     (\<exists>w1 g1 w2 g2 w3 g3 w4 g4 sep g5.
        p = w1 @ g1 @ w2 @ g2 @ w3 @ g3 @ w4 @ g4 @ sep @ g5
        \<and> sameIgnoringCase (js ''search'') w1 \<and> g1 \<noteq> [] \<and> list_all isWhiteSpace g1
        \<and> sameIgnoringCase (js ''on'') w2 \<and> g2 \<noteq> [] \<and> list_all isWhiteSpace g2
        \<and> sameIgnoringCase (js ''bing'') w3 \<and> g3 \<noteq> [] \<and> list_all isWhiteSpace g3
        \<and> (sameIgnoringCase (js ''to'') w4 \<or> sameIgnoringCase (js ''for'') w4)
        \<and> list_all isWhiteSpace g4
        \<and> (sep = [] \<or> (\<exists>c. sep = [c] \<and> isSeparator c))
        \<and> list_all isWhiteSpace g5)"

section \<open>Auxiliary notions for the proofs\<close>

text \<open>
  A string in which white space occurs only as single spaces: what
  \<open>collapseWhiteSpace\<close> produces and leaves alone.
\<close>

fun wsNormal :: "jsstring \<Rightarrow> bool" where
  "wsNormal [] = True"
| "wsNormal [c] = (isWhiteSpace c \<longrightarrow> c = 0x20)"
| "wsNormal (c # d # cs) =
     ((isWhiteSpace c \<longrightarrow> c = 0x20 \<and> \<not> isWhiteSpace d) \<and> wsNormal (d # cs))"

definition isPlain :: "nat \<Rightarrow> bool" where
  "isPlain c \<longleftrightarrow> (0x61 \<le> c \<and> c \<le> 0x7A) \<or> (0x30 \<le> c \<and> c \<le> 0x39) \<or> c = 0x20"

text \<open>What \<open>matchLiteral\<close> accepts for a word, unit by unit.\<close>

definition matchesWord :: "jsstring \<Rightarrow> jsstring \<Rightarrow> bool" where
  "matchesWord word w \<longleftrightarrow> list_all2 eqIgnoreCase word w"

text \<open>A string without white space at either end: what \<open>trim\<close> produces and leaves alone.\<close>

definition isTrimmed :: "jsstring \<Rightarrow> bool" where
  "isTrimmed s \<longleftrightarrow> s = [] \<or> (\<not> isWhiteSpace (hd s) \<and> \<not> isWhiteSpace (last s))"

text \<open>The text a quiz card is remembered by: \<open>textContent() || ''\<close>.\<close>

definition cardText :: "QuizCard \<Rightarrow> jsstring" where
  "cardText element = (case textContent element of Some t \<Rightarrow> t | None \<Rightarrow> [])"

text \<open>The loop invariant of quiz discovery, on the pair of \<open>processedIndices\<close> and \<open>quizzes\<close>.\<close>

definition quizInv :: "jsstring set \<times> QuizCard list \<Rightarrow> bool" where
  "quizInv st \<longleftrightarrow>
     fst st = set (map cardText (snd st)) \<and> distinct (map cardText (snd st))
     \<and> list_all (\<lambda>c. completedMarkers c = 0) (snd st)"

section \<open>The answer cache: what holds\<close>

lemma store_correct:
  "store q a True ev cache =
     cache(hashQuestion q \<mapsto>
       \<lparr>questionHash = hashQuestion q, answerIndex = a, correct = True, evidence = ev\<rparr>)"
  by (simp add: store_def Let_def split: option.splits)

lemma store_incorrect_on_correct:
  assumes "cache (hashQuestion q) = Some r" and "correct r"
  shows "store q a False ev cache = cache"
  using assms by (simp add: store_def Let_def)

text \<open>
  C1. Once \<open>store(q, a, true)\<close> has run, a later \<open>store(q2, a2, false)\<close> for a question
  with the same hash changes nothing: the cache is the same, and \<open>lookup(q)\<close> still
  returns the record with \<open>correct = true\<close> and \<open>answerIndex = a\<close>. This holds from
  every cache and for every evidence argument of either call.
\<close>

theorem store_incorrect_keeps_correct_record:
  assumes "hashQuestion q2 = hashQuestion q"
  shows "store q2 a2 False ev2 (store q a True ev cache) = store q a True ev cache
       \<and> lookup (store q2 a2 False ev2 (store q a True ev cache)) q =
           Some \<lparr>questionHash = hashQuestion q, answerIndex = a, correct = True, evidence = ev\<rparr>"
proof -
  let ?r = "\<lparr>questionHash = hashQuestion q, answerIndex = a, correct = True, evidence = ev\<rparr>"
  let ?c1 = "store q a True ev cache"
  have found: "?c1 (hashQuestion q2) = Some ?r"
    using assms by (simp add: store_correct)
  have kept: "store q2 a2 False ev2 ?c1 = ?c1"
    using found by (rule store_incorrect_on_correct) simp
  show ?thesis
    using kept found assms by (simp add: lookup_def)
qed

lemma normalizeQuestion_test_question:
  "normalizeQuestion (js ''test question?'') = normalizeQuestion (js ''Test question'')"
  by (simp add: normalizeQuestion_def js_def trim_def toLowerCase_def toLowerCaseUnit_def
      removeNonAlnum_def isLowerAlnumOrSpace_def isWhiteSpace_def)

theorem store_incorrect_keeps_correct_record_witness:
  "hashQuestion (js ''test question?'') = hashQuestion (js ''Test question'')
   \<and> store (js ''test question?'') 2 False None (store (js ''Test question'') 1 True None Map.empty)
       = store (js ''Test question'') 1 True None Map.empty
   \<and> lookup (store (js ''test question?'') 2 False None
         (store (js ''Test question'') 1 True None Map.empty)) (js ''Test question'')
       = Some \<lparr>questionHash = hashQuestion (js ''Test question''), answerIndex = 1,
               correct = True, evidence = None\<rparr>"
proof -
  have h: "hashQuestion (js ''test question?'') = hashQuestion (js ''Test question'')"
    by (simp only: hashQuestion_def normalizeQuestion_test_question)
  from store_incorrect_keeps_correct_record[OF h, of 2 None 1 None Map.empty] h
  show ?thesis by blast
qed

text \<open>
  The same over any number of later incorrect attempts, for whatever questions: a record
  with \<open>correct = true\<close> stays as it is.
\<close>

lemma incorrect_stores_keep_correct_record:
  assumes "cache (hashQuestion q) = Some r" and "correct r"
  shows "fold (\<lambda>(q', a', ev'). store q' a' False ev') atts cache (hashQuestion q) = Some r"
  using assms
proof (induction atts arbitrary: cache)
  case Nil
  then show ?case by simp
next
  case (Cons att atts)
  obtain q' a' ev' where att: "att = (q', a', ev')" by (cases att)
  have "store q' a' False ev' cache (hashQuestion q) = Some r"
  proof (cases "hashQuestion q' = hashQuestion q")
    case True
    then have "store q' a' False ev' cache = cache"
      using Cons.prems by (intro store_incorrect_on_correct[of cache q' r]) simp_all
    with Cons.prems show ?thesis by simp
  next
    case False
    with Cons.prems show ?thesis
      by (simp add: store_def Let_def split: option.splits)
  qed
  then show ?case
    unfolding att using Cons.prems(2) by (simp add: Cons.IH)
qed

text \<open>
  C10. \<open>store\<close> with \<open>correct = true\<close> writes its record whatever the cache holds under
  the hash, so a second correct answer for the same question replaces the
  \<open>answerIndex\<close> and the evidence of the first.
\<close>

theorem store_correct_always_overwrites:
  "store q a2 True ev2 cache =
     cache(hashQuestion q \<mapsto>
       \<lparr>questionHash = hashQuestion q, answerIndex = a2, correct = True, evidence = ev2\<rparr>)
   \<and> lookup (store q a2 True ev2 (store q a True ev cache)) q =
       Some \<lparr>questionHash = hashQuestion q, answerIndex = a2, correct = True, evidence = ev2\<rparr>"
  by (simp add: store_correct lookup_def)

subsection \<open>Normalizing twice\<close>

lemma isWhiteSpace_space: "isWhiteSpace 0x20"
  by (simp add: isWhiteSpace_def)

lemma isPlain_imp: "isPlain c \<Longrightarrow> isLowerAlnumOrSpace c"
  unfolding isPlain_def isLowerAlnumOrSpace_def using isWhiteSpace_space by blast

lemma plain_collapse:
  "\<forall>c \<in> set s. isLowerAlnumOrSpace c \<Longrightarrow> \<forall>c \<in> set (collapseWhiteSpace s). isPlain c"
proof (induction s rule: collapseWhiteSpace.induct)
  case 1
  then show ?case by simp
next
  case (2 c cs)
  show ?case
  proof (cases "isWhiteSpace c")
    case True
    have "\<forall>c \<in> set (dropWhile isWhiteSpace cs). isLowerAlnumOrSpace c"
      using "2.prems" by (auto dest: set_dropWhileD)
    with True 2 show ?thesis by (simp add: isPlain_def)
  next
    case False
    with 2 show ?thesis by (auto simp: isPlain_def isLowerAlnumOrSpace_def)
  qed
qed

lemma set_trim: "set (trim s) \<subseteq> set s"
  unfolding trim_def by (auto dest!: set_dropWhileD)

lemma plain_lower: "\<forall>c \<in> set s. isPlain c \<Longrightarrow> toLowerCase s = s"
  by (induction s) (auto simp: toLowerCase_def toLowerCaseUnit_def isPlain_def)

lemma plain_remove: "\<forall>c \<in> set s. isPlain c \<Longrightarrow> removeNonAlnum s = s"
  unfolding removeNonAlnum_def by (rule filter_True) (simp add: isPlain_imp)

lemma wsNormal_collapse: "wsNormal (collapseWhiteSpace s)"
proof (induction s rule: collapseWhiteSpace.induct)
  case 1
  then show ?case by simp
next
  case (2 c cs)
  show ?case
  proof (cases "isWhiteSpace c")
    case True
    let ?r = "dropWhile isWhiteSpace cs"
    have ih: "wsNormal (collapseWhiteSpace ?r)" using 2 True by simp
    show ?thesis
    proof (cases ?r)
      case Nil
      with True show ?thesis by (simp del: dropWhile_eq_Nil_conv)
    next
      case (Cons d ds)
      then have "\<not> isWhiteSpace d" using hd_dropWhile[of isWhiteSpace cs] by auto
      with ih True Cons show ?thesis by simp
    qed
  next
    case False
    with 2 show ?thesis by (cases "collapseWhiteSpace cs") auto
  qed
qed

lemma collapse_wsNormal: "wsNormal s \<Longrightarrow> collapseWhiteSpace s = s"
  by (induction s rule: wsNormal.induct) auto

lemma wsNormal_tl: "wsNormal (c # cs) \<Longrightarrow> wsNormal cs"
  by (cases cs) auto

lemma wsNormal_dropWhile: "wsNormal s \<Longrightarrow> wsNormal (dropWhile P s)"
  by (induction s) (auto dest: wsNormal_tl)

lemma wsNormal_prefix: "wsNormal (a @ b) \<Longrightarrow> wsNormal a"
proof (induction a rule: wsNormal.induct)
  case 1
  then show ?case by simp
next
  case (2 c)
  then show ?case by (cases b) auto
next
  case (3 c d cs)
  then show ?case by auto
qed

lemma trimEnd_prefix: "\<exists>w. s = rev (dropWhile P (rev s)) @ w"
proof -
  have "rev s = takeWhile P (rev s) @ dropWhile P (rev s)" by simp
  then have "s = rev (dropWhile P (rev s)) @ rev (takeWhile P (rev s))"
    by (metis rev_append rev_rev_ident)
  then show ?thesis ..
qed

lemma wsNormal_trim: "wsNormal s \<Longrightarrow> wsNormal (trim s)"
proof -
  assume "wsNormal s"
  then have a: "wsNormal (dropWhile isWhiteSpace s)" by (rule wsNormal_dropWhile)
  obtain w where "dropWhile isWhiteSpace s = trim s @ w"
    unfolding trim_def using trimEnd_prefix by blast
  with a show ?thesis by (metis wsNormal_prefix)
qed

lemma trim_commute:
  "dropWhile P (rev (dropWhile P (rev s))) = rev (dropWhile P (rev (dropWhile P s)))"
proof (induction s)
  case Nil
  then show ?case by simp
next
  case (Cons c cs)
  show ?case
  proof (cases "P c")
    case True
    show ?thesis
    proof (cases "\<forall>x \<in> set cs. P x")
      case all: True
      then have "dropWhile P cs = []" by simp
      with all show ?thesis
        using True by (simp add: dropWhile_append del: dropWhile_eq_Nil_conv)
    next
      case False
      then show ?thesis using True Cons by (auto simp: dropWhile_append)
    qed
  next
    case False
    then show ?thesis by (simp add: dropWhile_append)
  qed
qed

lemma trim_idem: "trim (trim s) = trim s"
  unfolding trim_def by (simp add: trim_commute)

lemma normalizeQuestion_idem: "normalizeQuestion (normalizeQuestion s) = normalizeQuestion s"
proof -
  define a where "a = removeNonAlnum (toLowerCase s)"
  define n where "n = trim (collapseWhiteSpace a)"
  have "\<forall>c \<in> set a. isLowerAlnumOrSpace c" by (simp add: a_def removeNonAlnum_def)
  then have "\<forall>c \<in> set (collapseWhiteSpace a). isPlain c" by (rule plain_collapse)
  then have plain: "\<forall>c \<in> set n. isPlain c" unfolding n_def using set_trim by blast
  have norm: "wsNormal n" unfolding n_def by (rule wsNormal_trim) (rule wsNormal_collapse)
  have e1: "removeNonAlnum (toLowerCase n) = n"
    using plain_lower[OF plain] plain_remove[OF plain] by simp
  have e2: "collapseWhiteSpace n = n" using norm by (rule collapse_wsNormal)
  have e3: "trim n = n" unfolding n_def by (rule trim_idem)
  have "normalizeQuestion s = n" by (simp only: normalizeQuestion_def a_def n_def)
  moreover have "normalizeQuestion n = n" by (simp only: normalizeQuestion_def e1 e2 e3)
  ultimately show ?thesis by simp
qed

lemma normalizeQuestion_what_is: 
  "normalizeQuestion (js ''What is 2+2?'') = normalizeQuestion (js ''what is 2+2'')"
  by (simp add: normalizeQuestion_def js_def trim_def toLowerCase_def toLowerCaseUnit_def
      removeNonAlnum_def isLowerAlnumOrSpace_def isWhiteSpace_def)

lemma normalizeQuestion_capital:
  "normalizeQuestion (js ''What is the CAPITAL of France?'')
     = normalizeQuestion (js ''what is the capital of france?'')"
  by (simp add: normalizeQuestion_def js_def trim_def toLowerCase_def toLowerCaseUnit_def
      removeNonAlnum_def isLowerAlnumOrSpace_def isWhiteSpace_def)

subsection \<open>The hash of one question\<close>

lemma and32_self: "and32 a a = toInt32 a"
  by (simp add: and32_def)

lemma hashLoop_step: "hashLoop h (c # cs) = hashLoop (toInt32 (shl32 h 5 + h + int c)) cs"
  by (simp add: and32_self Let_def)

lemma normalizeQuestion_example: "normalizeQuestion (js ''What is 2+2?'') = js ''what is 22''"
  by (simp add: normalizeQuestion_def js_def trim_def toLowerCase_def toLowerCaseUnit_def
      removeNonAlnum_def isLowerAlnumOrSpace_def isWhiteSpace_def)

lemma hashQuestion_example: "hashQuestion (js ''What is 2+2?'') = js ''21cb2e19''"
proof -
  have "hashLoop 5381 (js ''what is 22'') = 566963737"
    by (simp add: js_def hashLoop_step shl32_def toInt32_def del: hashLoop.simps(2))
  moreover have "toStringRadix 16 566963737 = js ''21cb2e19''"
    by (simp add: toStringRadix.simps digitUnit_def js_def)
  ultimately show ?thesis
    by (simp add: hashQuestion_def normalizeQuestion_example)
qed

text \<open>
  C8. The hash depends on the question through its normalized text only: two strings
  with the same normalized text (lower-cased, everything but \<open>a-z\<close>, \<open>0-9\<close> and white
  space removed, white space collapsed, trimmed) have the same hash; the questions
  \<open>What is 2+2?\<close> and \<open>what is 2+2\<close> have the same hash; and the normalized text of
  a question hashes to the hash of the question.
\<close>

theorem hashQuestion_factors_through_normalization:
  "(normalizeQuestion s1 = normalizeQuestion s2 \<longrightarrow> hashQuestion s1 = hashQuestion s2)
   \<and> hashQuestion (js ''What is 2+2?'') = hashQuestion (js ''what is 2+2'')
   \<and> hashQuestion (normalizeQuestion s) = hashQuestion s"
  by (simp add: hashQuestion_def normalizeQuestion_idem normalizeQuestion_what_is)

theorem hashQuestion_factors_through_normalization_witness:
  "normalizeQuestion (js ''What is the CAPITAL of France?'')
     = normalizeQuestion (js ''what is the capital of france?'')
   \<and> hashQuestion (js ''What is the CAPITAL of France?'')
     = hashQuestion (js ''what is the capital of france?'')"
  using hashQuestion_factors_through_normalization
    [of "js ''What is the CAPITAL of France?''" "js ''what is the capital of france?''"]
    normalizeQuestion_capital
  by blast

section \<open>The metrics store: the caps\<close>

lemma findIndex_None: "findIndex p xs = None \<longleftrightarrow> (\<forall>x \<in> set xs. \<not> p x)"
  by (induction xs) auto

lemma findIndex_Some: "findIndex p xs = Some i \<Longrightarrow> i < length xs \<and> p (xs ! i)"
proof (induction xs arbitrary: i)
  case Nil
  then show ?case by simp
next
  case (Cons x xs)
  then show ?case by (auto split: if_splits)
qed

lemma length_sliceLast: "length (sliceLast n xs) = min n (length xs)"
  by (simp add: sliceLast_def)

lemma sliceLast_snoc: "sliceLast (Suc n) (xs @ [x]) = sliceLast n xs @ [x]"
  by (simp add: sliceLast_def)

lemma sliceLast_sliceLast: "n \<le> m \<Longrightarrow> sliceLast n (sliceLast m xs) = sliceLast n xs"
proof -
  assume "n \<le> m"
  then have "length xs - (length xs - m + n) + (length xs - m) = length xs - n" by arith
  then show ?thesis by (simp add: sliceLast_def)
qed

lemma sliceLast_map: "sliceLast n (map f xs) = map f (sliceLast n xs)"
  by (simp add: sliceLast_def drop_map)

text \<open>The run log keeps at most 1000 entries: 999 old ones and the new one.\<close>

lemma recordRun_cap: "length (runs (recordRun now h st dur att data)) \<le> 1000"
  by (simp add: recordRun_def length_sliceLast)

text \<open>
  A call for a day and source that have an entry adds to the points of the first such
  entry and leaves the number of entries as it is.
\<close>

lemma recordPoints_accumulates:
  assumes "findIndex (\<lambda>e. date e = today \<and> source e = src) (dailyPoints data) = Some i"
  shows "dailyPoints (recordPoints today pts src data) =
           (dailyPoints data)[i := (dailyPoints data ! i)\<lparr>points := points (dailyPoints data ! i) + pts\<rparr>]"
    and "length (dailyPoints (recordPoints today pts src data)) = length (dailyPoints data)"
  using assms by (simp_all add: recordPoints_def Let_def)

text \<open>From a list of at most 366 entries, a call leaves at most 366 entries.\<close>

lemma recordPoints_cap_366:
  assumes "length (dailyPoints data) \<le> 366"
  shows "length (dailyPoints (recordPoints today pts src data)) \<le> 366"
  using assms
  by (simp add: recordPoints_def Let_def length_sliceLast split: option.splits)

text \<open>A call for a day without an entry keeps the last 365 entries and appends one.\<close>

lemma recordPoints_fresh:
  assumes "\<forall>e \<in> set (dailyPoints data). date e \<noteq> today"
  shows "dailyPoints (recordPoints today pts src data) =
           sliceLast 365 (dailyPoints data) @ [\<lparr>date = today, points = pts, source = src\<rparr>]"
proof -
  have "findIndex (\<lambda>e. date e = today \<and> source e = src) (dailyPoints data) = None"
    using assms by (simp add: findIndex_None)
  then show ?thesis by (simp add: recordPoints_def)
qed

lemma fold_recordPoints_distinct:
  "distinct ds \<Longrightarrow>
   dailyPoints (fold (\<lambda>d. recordPoints d pts src) ds emptyMetrics) =
     map (\<lambda>d. \<lparr>date = d, points = pts, source = src\<rparr>) (sliceLast 366 ds)"
proof (induction ds rule: rev_induct)
  case Nil
  then show ?case by (simp add: emptyMetrics_def sliceLast_def)
next
  case (snoc d ds)
  let ?st = "fold (\<lambda>d. recordPoints d pts src) ds emptyMetrics"
  let ?mk = "\<lambda>d. \<lparr>date = d, points = pts, source = src\<rparr>"
  have ih: "dailyPoints ?st = map ?mk (sliceLast 366 ds)" using snoc by simp
  have "set (sliceLast 366 ds) \<subseteq> set ds" by (simp add: sliceLast_def set_drop_subset)
  then have fresh: "\<forall>e \<in> set (dailyPoints ?st). date e \<noteq> d"
    using snoc.prems ih by auto
  have "dailyPoints (recordPoints d pts src ?st) = sliceLast 365 (dailyPoints ?st) @ [?mk d]"
    using fresh by (rule recordPoints_fresh)
  also have "sliceLast 365 (dailyPoints ?st) = map ?mk (sliceLast 365 ds)"
    by (simp add: ih sliceLast_map sliceLast_sliceLast)
  finally show ?case
    using sliceLast_snoc[of 365 ds d] by simp
qed

subsection \<open>A year of daily runs\<close>

lemma twoDigits_inj: "twoDigits a = twoDigits b \<Longrightarrow> a = b"
proof -
  assume "twoDigits a = twoDigits b"
  then have "a div 10 = b div 10" "a mod 10 = b mod 10"
    by (simp_all add: twoDigits_def)
  then show "a = b" by (metis div_mult_mod_eq)
qed

lemma isoDate2025_inj: "isoDate2025 m d = isoDate2025 m' d' \<Longrightarrow> m = m' \<and> d = d'"
proof -
  assume eq: "isoDate2025 m d = isoDate2025 m' d'"
  have len: "length (twoDigits m) = length (twoDigits m')" by (simp add: twoDigits_def)
  from eq have "twoDigits m @ js ''-'' @ twoDigits d = twoDigits m' @ js ''-'' @ twoDigits d'"
    by (simp add: isoDate2025_def)
  with len have "twoDigits m = twoDigits m'" "twoDigits d = twoDigits d'"
    by simp_all
  then show ?thesis by (simp add: twoDigits_inj)
qed

lemma distinct_month_days:
  "distinct (map fst tbl) \<Longrightarrow>
   distinct (concat (map (\<lambda>(m, len). map (isoDate2025 m) [1..<len + 1]) tbl))"
proof (induction tbl)
  case Nil
  then show ?case by simp
next
  case (Cons p tbl)
  obtain m len where p: "p = (m, len)" by (cases p)
  have one: "distinct (map (isoDate2025 m) [1..<len + 1])"
    by (simp add: distinct_map inj_on_def del: upt_Suc) (blast dest: isoDate2025_inj)
  have rest: "distinct (concat (map (\<lambda>(m, len). map (isoDate2025 m) [1..<len + 1]) tbl))"
    using Cons by simp
  have disj: "set (map (isoDate2025 m) [1..<len + 1])
      \<inter> set (concat (map (\<lambda>(m, len). map (isoDate2025 m) [1..<len + 1]) tbl)) = {}"
  proof (rule ccontr)
    assume "\<not> ?thesis"
    then obtain s where s1: "s \<in> set (map (isoDate2025 m) [1..<len + 1])"
      and s2: "s \<in> set (concat (map (\<lambda>(m, len). map (isoDate2025 m) [1..<len + 1]) tbl))"
      by blast
    from s1 obtain d where d: "s = isoDate2025 m d" by auto
    from s2 obtain m' len' d' where m': "(m', len') \<in> set tbl" and d': "s = isoDate2025 m' d'"
      by auto
    from d d' have "m = m'" using isoDate2025_inj by blast
    with m' have "m \<in> set (map fst tbl)" by force
    with Cons.prems p show False by simp
  qed
  from one rest disj show ?case
    unfolding p by (simp del: upt_Suc)
qed

lemma distinct_days2025: "distinct days2025"
  unfolding days2025_def by (rule distinct_month_days) (simp add: monthLengths2025_def)

lemma length_days2025: "length days2025 = 365"
  by (simp add: days2025_def monthLengths2025_def)

lemma days2025_year: "\<forall>d \<in> set days2025. d ! 3 = 0x35"
  by (auto simp: days2025_def isoDate2025_def js_def)

text \<open>
  C4. From the empty store, one \<open>recordPoints(10, 'click')\<close> on each of the 365 days
  of 2025 and one more on 2026-01-01 leave 366 entries in \<open>dailyPoints\<close>: the new entry
  is appended to the last 365, not to the last 364.
\<close>

theorem recordPoints_keeps_366_entries:
  "length (dailyPoints
     (fold (\<lambda>d. recordPoints d 10 Click) (days2025 @ [js ''2026-01-01'']) emptyMetrics)) = 366"
proof -
  have "js ''2026-01-01'' ! 3 = 0x36" by (simp add: js_def)
  with days2025_year have "js ''2026-01-01'' \<notin> set days2025" by force
  then have "distinct (days2025 @ [js ''2026-01-01''])" using distinct_days2025 by simp
  then show ?thesis
    by (simp add: fold_recordPoints_distinct sliceLast_def length_days2025 del: fold_append)
qed

section \<open>Pointer motion: path and click\<close>

text \<open>
  C7. For every start and end point, every whole number of steps from 1 on and every
  outcome of the four random draws, \<open>generateMousePath\<close> returns \<open>steps + 1\<close> points,
  the first of them the start point and the last of them the end point.
\<close>

theorem generateMousePath_endpoints:
  assumes "1 \<le> steps"
  shows "length (generateMousePath x0 y0 x1 y1 steps rnd) = steps + 1
       \<and> hd (generateMousePath x0 y0 x1 y1 steps rnd) = \<lparr>pointX = x0, pointY = y0\<rparr>
       \<and> last (generateMousePath x0 y0 x1 y1 steps rnd) = \<lparr>pointX = x1, pointY = y1\<rparr>"
proof -
  have len: "length (generateMousePath x0 y0 x1 y1 steps rnd) = steps + 1"
    by (simp add: generateMousePath_def Let_def)
  have first: "hd (generateMousePath x0 y0 x1 y1 steps rnd) = \<lparr>pointX = x0, pointY = y0\<rparr>"
    by (simp add: generateMousePath_def Let_def hd_map upt_conv_Cons del: upt_Suc)
  have "last (generateMousePath x0 y0 x1 y1 steps rnd) = \<lparr>pointX = x1, pointY = y1\<rparr>"
    using assms by (simp add: generateMousePath_def Let_def last_map)
  with len first show ?thesis by simp
qed

theorem generateMousePath_endpoints_witness:
  "(1::nat) \<le> 50
   \<and> length (generateMousePath 0 0 100 200 50 (\<lambda>i. 1/4)) = 51
   \<and> hd (generateMousePath 0 0 100 200 50 (\<lambda>i. 1/4)) = \<lparr>pointX = 0, pointY = 0\<rparr>
   \<and> last (generateMousePath 0 0 100 200 50 (\<lambda>i. 1/4)) = \<lparr>pointX = 100, pointY = 200\<rparr>"
  using generateMousePath_endpoints[of 50 0 0 100 200 "\<lambda>i. 1/4"] by simp

text \<open>
  C6, as the claim states it, fails: on the 50 by 30 button at (100, 100), the draws
  0.1 and 0.9 put the target 16 to the left of the centre and 9.6 below it, more than
  40% of the half-width (10) and of the half-height (6).
\<close>

theorem clickTarget_half_width_counterexample:
  "\<not> \<bar>pointX (clickTarget buttonBox (1/10) (9/10)) - (boxX buttonBox + width buttonBox / 2)\<bar>
       \<le> 0.4 * (width buttonBox / 2)
   \<and> \<not> \<bar>pointY (clickTarget buttonBox (1/10) (9/10)) - (boxY buttonBox + height buttonBox / 2)\<bar>
       \<le> 0.4 * (height buttonBox / 2)"
  by (simp add: clickTarget_def buttonBox_def)

text \<open>
  C6, amended. For every box of non-negative width and height and all draws in
  \<open>[0, 1)\<close>, the target of a click lies within 40% of the width to either side of the
  centre and within 40% of the height above or below it (80% of the half-width and
  half-height), so inside the box.
\<close>

theorem clickTarget_within_width:
  assumes "0 \<le> rx" "rx < 1" "0 \<le> ry" "ry < 1" "0 \<le> width box" "0 \<le> height box"
  shows "\<bar>pointX (clickTarget box rx ry) - (boxX box + width box / 2)\<bar> \<le> 0.4 * width box
       \<and> \<bar>pointY (clickTarget box rx ry) - (boxY box + height box / 2)\<bar> \<le> 0.4 * height box"
proof -
  have bound: "\<bar>(r - 0.5) * (w * 0.8)\<bar> \<le> 0.4 * w" if "0 \<le> r" "r < 1" "0 \<le> w" for r w :: real
  proof -
    have "\<bar>r - 0.5\<bar> \<le> 0.5" using that by linarith
    then have "\<bar>r - 0.5\<bar> * (w * 0.8) \<le> 0.5 * (w * 0.8)"
      using that by (intro mult_right_mono) simp_all
    moreover have "\<bar>(r - 0.5) * (w * 0.8)\<bar> = \<bar>r - 0.5\<bar> * (w * 0.8)"
      using that by (simp add: abs_mult)
    ultimately show ?thesis by simp
  qed
  have ex: "pointX (clickTarget box rx ry) - (boxX box + width box / 2)
              = (rx - 0.5) * (width box * 0.8)"
    by (simp add: clickTarget_def)
  have ey: "pointY (clickTarget box rx ry) - (boxY box + height box / 2)
              = (ry - 0.5) * (height box * 0.8)"
    by (simp add: clickTarget_def)
  show ?thesis
    unfolding ex ey using bound[OF assms(1,2,5)] bound[OF assms(3,4,6)] by blast
qed

theorem clickTarget_within_width_witness:
  "(0::real) \<le> 1/10 \<and> (1/10::real) < 1 \<and> (0::real) \<le> 9/10 \<and> (9/10::real) < 1
   \<and> 0 \<le> width buttonBox \<and> 0 \<le> height buttonBox
   \<and> \<bar>pointX (clickTarget buttonBox (1/10) (9/10)) - (boxX buttonBox + width buttonBox / 2)\<bar>
       \<le> 0.4 * width buttonBox
   \<and> \<bar>pointY (clickTarget buttonBox (1/10) (9/10)) - (boxY buttonBox + height buttonBox / 2)\<bar>
       \<le> 0.4 * height buttonBox"
  using clickTarget_within_width[of "1/10" "9/10" buttonBox] by (simp add: buttonBox_def)

lemma filter_movePath:
  "filter isPointerEvent
     (concat (map (\<lambda>(i, point). [MouseMove (pointX point) (pointY point), Wait (f i)])
        (enumerate n path)))
   = map (\<lambda>point. MouseMove (pointX point) (pointY point)) path"
  by (induction path arbitrary: n) simp_all

lemma pointer_clickEvents:
  "filter isPointerEvent (clickEvents box rnd) =
     map (\<lambda>point. MouseMove (pointX point) (pointY point))
       (generateMousePath 0 0 (pointX (clickTarget box (rnd 0) (rnd 1)))
          (pointY (clickTarget box (rnd 0) (rnd 1))) 50 (\<lambda>i. rnd (i + 2)))
     @ [MouseDown, MouseUp]"
  by (simp add: clickEvents_def movePath_def Let_def filter_movePath)

text \<open>The same holds of \<open>clickLocatorHuman\<close>, whose body is the same.\<close>

lemma clickLocatorHuman_throws_iff_no_box:
  "(\<exists>e. clickLocatorHuman page locatorBox rnd = Inl e) \<longleftrightarrow> locatorBox = None"
  by (simp add: clickLocatorHuman_def split: option.splits)

text \<open>
  C9. \<open>clickHuman\<close> throws exactly when the bounding box of the target is \<open>null\<close>. When
  there is a box it returns without an error of its own, and the pointer events it has
  added to the page are the moves along the generated path from (0, 0) to the click
  target, then pointer-down, then pointer-up. The error is a plain \<open>Error\<close> whose message
  says that the element is not visible.
\<close>

theorem clickHuman_throws_iff_no_box:
  "((\<exists>e. clickHuman page sel rnd = Inl e) \<longleftrightarrow> boundingBoxOf page sel = None)
   \<and> (\<forall>box. boundingBoxOf page sel = Some box \<longrightarrow>
        (\<exists>new. clickHuman page sel rnd = Inr (page\<lparr>events := events page @ new\<rparr>)
           \<and> filter isPointerEvent new =
               map (\<lambda>point. MouseMove (pointX point) (pointY point))
                 (generateMousePath 0 0 (pointX (clickTarget box (rnd 0) (rnd 1)))
                    (pointY (clickTarget box (rnd 0) (rnd 1))) 50 (\<lambda>i. rnd (i + 2)))
               @ [MouseDown, MouseUp]))"
proof -
  have a: "(\<exists>e. clickHuman page sel rnd = Inl e) \<longleftrightarrow> boundingBoxOf page sel = None"
    by (simp add: clickHuman_def split: option.splits)
  have b: "\<exists>new. clickHuman page sel rnd = Inr (page\<lparr>events := events page @ new\<rparr>)
           \<and> filter isPointerEvent new =
               map (\<lambda>point. MouseMove (pointX point) (pointY point))
                 (generateMousePath 0 0 (pointX (clickTarget box (rnd 0) (rnd 1)))
                    (pointY (clickTarget box (rnd 0) (rnd 1))) 50 (\<lambda>i. rnd (i + 2)))
               @ [MouseDown, MouseUp]"
    if "boundingBoxOf page sel = Some box" for box
  proof -
    have "clickHuman page sel rnd = Inr (page\<lparr>events := events page @ clickEvents box rnd\<rparr>)"
      using that by (simp add: clickHuman_def)
    then show ?thesis using pointer_clickEvents by blast
  qed
  from a b show ?thesis by blast
qed

theorem clickHuman_throws_iff_no_box_witness:
  "boundingBoxOf buttonPage (js ''#test-button'') = Some buttonBox
   \<and> (\<exists>new. clickHuman buttonPage (js ''#test-button'') (\<lambda>i. 1/2)
               = Inr (buttonPage\<lparr>events := events buttonPage @ new\<rparr>)
           \<and> filter isPointerEvent new =
               map (\<lambda>point. MouseMove (pointX point) (pointY point))
                 (generateMousePath 0 0 (pointX (clickTarget buttonBox (1/2) (1/2)))
                    (pointY (clickTarget buttonBox (1/2) (1/2))) 50 (\<lambda>i. 1/2))
               @ [MouseDown, MouseUp])
   \<and> boundingBoxOf buttonPage (js ''#invisible'') = None
   \<and> (\<exists>e. clickHuman buttonPage (js ''#invisible'') (\<lambda>i. 1/2) = Inl e)"
proof -
  have box: "boundingBoxOf buttonPage (js ''#test-button'') = Some buttonBox"
    by (simp add: buttonPage_def)
  have none: "boundingBoxOf buttonPage (js ''#invisible'') = None"
    by (simp add: buttonPage_def js_def)
  from clickHuman_throws_iff_no_box[of buttonPage "js ''#test-button''" "\<lambda>i. 1/2"] box
       clickHuman_throws_iff_no_box[of buttonPage "js ''#invisible''" "\<lambda>i. 1/2"] none
  show ?thesis by simp
qed

section \<open>Quiz discovery: what is filtered\<close>

lemma text_or_empty:
  "(case textContent element of Some t \<Rightarrow> if t \<noteq> [] then t else [] | None \<Rightarrow> [])
     = cardText element"
  by (simp add: cardText_def split: option.splits)

lemma scanElements_inv: "quizInv st \<Longrightarrow> quizInv (scanElements els st)"
proof (induction els arbitrary: st)
  case Nil
  then show ?case by simp
next
  case (Cons element els)
  obtain processed quizzes where st: "st = (processed, quizzes)" by (cases st)
  show ?case
  proof (cases "completedMarkers element > 0 \<or> cardText element \<in> processed")
    case True
    then have "scanElements (element # els) st = scanElements els st"
      unfolding st by (auto simp: Let_def text_or_empty)
    with Cons show ?thesis by simp
  next
    case False
    then have step: "scanElements (element # els) st =
        scanElements els (insert (cardText element) processed, quizzes @ [element])"
      unfolding st by (simp add: Let_def text_or_empty)
    have "quizInv (insert (cardText element) processed, quizzes @ [element])"
      using Cons.prems False unfolding st quizInv_def by auto
    then show ?thesis unfolding step by (rule Cons.IH)
  qed
qed

lemma foldl_scanElements_inv:
  "quizInv st \<Longrightarrow> quizInv (foldl (\<lambda>st selector. scanElements (page selector) st) st sels)"
  by (induction sels arbitrary: st) (simp_all add: scanElements_inv)

text \<open>
  Every card that \<open>findQuizActivities\<close> returns is without a completion marker, and no
  two of the cards it returns have the same text.
\<close>

lemma findQuizActivities_not_completed_distinct:
  "list_all (\<lambda>c. completedMarkers c = 0) (findQuizActivities page)
   \<and> distinct (map cardText (findQuizActivities page))"
proof -
  have "quizInv ({}, [])" by (simp add: quizInv_def)
  then have "quizInv (foldl (\<lambda>st selector. scanElements (page selector) st) ({}, []) quizSelectors)"
    by (rule foldl_scanElements_inv)
  then show ?thesis by (simp add: findQuizActivities_def quizInv_def)
qed

text \<open>
  C2. The lock markers of a card are never looked at: the locked, not completed card
  of the repository's test is returned.
\<close>

theorem findQuizActivities_returns_locked_card:
  "findQuizActivities lockedPage = [lockedCard] \<and> lockMarkers lockedCard > 0"
  by (simp add: findQuizActivities_def quizSelectors_def lockedPage_def lockedCard_def js_def)

section \<open>Activity discovery: no card is dropped for its title\<close>

text \<open>
  C5, as the claim states it, fails: two cards of the More-activities section with the
  title \<open>Shop deals\<close> are both returned.
\<close>

theorem findClickableActivities_repeats_title_counterexample:
  "map title (findClickableActivities shopPage) = [js ''Shop deals'', js ''Shop deals'']
   \<and> \<not> distinct (map title (findClickableActivities shopPage))"
  by (simp add: findClickableActivities_def shopPage_def shopCard_def processCard_def
      processCardBody_def awaitThen_def trim_def isWhiteSpace_def js_def Let_def)

text \<open>\<open>processCard\<close> makes the entry of a card it accepts, and nothing of any other card.\<close>

lemma processCard_spec:
  "processCard c ty i = (if acceptsCard ty c then Some (entryOf c ty i) else None)"
  by (cases ty)
     (auto simp: processCard_def processCardBody_def awaitThen_def Let_def acceptsCard_def
        entryOf_def isPositive_def isResolved_def split: sum.splits option.splits)

lemma collectCards_spec:
  "collectCards ty cards acts =
     acts @ map (\<lambda>(i, c). entryOf c ty i) (enumerate (length acts) (filter (acceptsCard ty) cards))"
proof (induction cards arbitrary: acts)
  case Nil
  then show ?case by simp
next
  case (Cons c cards)
  then show ?case by (simp add: processCard_spec)
qed

text \<open>
  C5, amended. \<open>findClickableActivities\<close> drops no card on account of its title. It
  returns the entry of every accepted card of the More-activities section, in page
  order, followed by the entry of every accepted card of the Explore section, in page
  order; each entry carries the title, description and link of its own card, and its
  \<open>index\<close> is its position in the returned list.
\<close>

theorem findClickableActivities_entries:
  "processCard c ty i = (if acceptsCard ty c then Some (entryOf c ty i) else None)
   \<and> findClickableActivities page =
       (let more = (if moreByHeading page = [] then moreByXPath page else moreByHeading page);
            standard = filter (acceptsCard Standard) more;
            explore = filter (acceptsCard Explore) (exploreCards page)
        in map (\<lambda>(i, c). entryOf c Standard i) (enumerate 0 standard)
           @ map (\<lambda>(i, c). entryOf c Explore i) (enumerate (length standard) explore))
   \<and> map index (findClickableActivities page) = [0..<length (findClickableActivities page)]"
proof -
  have list: "findClickableActivities page =
       (let more = (if moreByHeading page = [] then moreByXPath page else moreByHeading page);
            standard = filter (acceptsCard Standard) more;
            explore = filter (acceptsCard Explore) (exploreCards page)
        in map (\<lambda>(i, c). entryOf c Standard i) (enumerate 0 standard)
           @ map (\<lambda>(i, c). entryOf c Explore i) (enumerate (length standard) explore))"
    by (simp add: findClickableActivities_def Let_def collectCards_spec[of Explore]
        collectCards_spec[of Standard _ "[]"])
  have idx: "map index (map (\<lambda>(i, c). entryOf c t i) (enumerate n cs)) = [n..<n + length cs]"
    for t n and cs :: "Card list"
    by (induction cs arbitrary: n) (simp_all add: entryOf_def upt_rec)
  have "map index (findClickableActivities page) = [0..<length (findClickableActivities page)]"
    unfolding list Let_def by (simp add: idx upt_add_eq_append[symmetric] del: map_map)
  with list processCard_spec show ?thesis by blast
qed

section \<open>The explore query: trimmed, stripped, trimmed\<close>

lemma stripSearchPhrase_Nil: "stripSearchPhrase [] = []"
  by (simp add: stripSearchPhrase_def matchSearchPhrase_def js_def)

lemma trim_Nil: "trim [] = []"
  by (simp add: trim_def)

lemma normalizeExploreQuery_eq:
  "normalizeExploreQuery t =
     (if trim (stripSearchPhrase (trim t)) = [] then trim t
      else trim (stripSearchPhrase (trim t)))"
  by (simp add: normalizeExploreQuery_def Let_def stripSearchPhrase_Nil trim_Nil)

text \<open>The two examples in the comment of \<open>normalizeExploreQuery\<close>.\<close>

lemma normalizeExploreQuery_examples:
  "normalizeExploreQuery (js ''Search on Bing for best pizza'') = js ''best pizza''"
  "normalizeExploreQuery (js ''Search on Bing to learn about whales'') = js ''learn about whales''"
  by (simp_all add: normalizeExploreQuery_def stripSearchPhrase_def matchSearchPhrase_def
      matchToOrFor_def matchSpaces1_def matchSpaces0_def matchSeparator_def eqIgnoreCase_def trim_def
      isWhiteSpace_def js_def)

subsection \<open>Text that is already trimmed\<close>

lemma isTrimmed_trim: "isTrimmed (trim s)"
proof -
  define z where "z = dropWhile isWhiteSpace s"
  define p where "p = rev (dropWhile isWhiteSpace (rev z))"
  have tp: "trim s = p" by (simp add: trim_def p_def z_def)
  obtain w where zw: "z = p @ w" unfolding p_def using trimEnd_prefix by blast
  show ?thesis
  proof (cases "p = []")
    case True
    then show ?thesis by (simp add: tp isTrimmed_def)
  next
    case False
    then have ne: "dropWhile isWhiteSpace (rev z) \<noteq> []" by (simp add: p_def)
    then have "\<not> isWhiteSpace (hd (dropWhile isWhiteSpace (rev z)))" by (rule hd_dropWhile)
    then have l: "\<not> isWhiteSpace (last p)" using ne by (simp add: p_def last_rev)
    have "z \<noteq> []" using zw False by simp
    then have "\<not> isWhiteSpace (hd z)" unfolding z_def by (rule hd_dropWhile)
    moreover have "hd z = hd p" using zw False by simp
    ultimately show ?thesis using l by (simp add: tp isTrimmed_def)
  qed
qed

lemma trim_isTrimmed: "isTrimmed s \<Longrightarrow> trim s = s"
proof (cases "s = []")
  case True
  then show ?thesis by (simp add: trim_def)
next
  case False
  assume "isTrimmed s"
  with False have h: "\<not> isWhiteSpace (hd s)" and l: "\<not> isWhiteSpace (last s)"
    by (auto simp: isTrimmed_def)
  from h False have a: "dropWhile isWhiteSpace s = s" by (cases s) auto
  from l False have "dropWhile isWhiteSpace (rev s) = rev s"
    by (cases "rev s") (auto simp: last_rev hd_rev[symmetric])
  with a show "trim s = s" by (simp add: trim_def)
qed

lemma isTrimmed_suffix:
  assumes "isTrimmed s" "suffix r s" "r = [] \<or> \<not> isWhiteSpace (hd r)"
  shows "isTrimmed r"
proof (cases "r = []")
  case True
  then show ?thesis by (simp add: isTrimmed_def)
next
  case False
  from assms(2) obtain p where "s = p @ r" by (auto simp: suffix_def)
  with False have "last s = last r" "s \<noteq> []" by simp_all
  with assms(1,3) False show ?thesis by (simp add: isTrimmed_def)
qed

lemma matchLiteral_suffix: "matchLiteral p s = Some r \<Longrightarrow> suffix r s"
  by (induction p s rule: matchLiteral.induct) (auto split: if_splits intro: suffix_ConsI)

lemma matchSpaces1_suffix: "matchSpaces1 s = Some r \<Longrightarrow> suffix r s"
  by (auto simp: matchSpaces1_def split: list.splits if_splits
      intro: suffix_ConsI suffix_dropWhile)

lemma matchToOrFor_suffix: "matchToOrFor s = Some r \<Longrightarrow> suffix r s"
  by (auto simp: matchToOrFor_def split: option.splits dest: matchLiteral_suffix)

lemma matchSeparator_suffix: "suffix (matchSeparator s) s"
  by (auto simp: matchSeparator_def split: list.splits intro: suffix_ConsI)

lemma matchSpaces0_suffix: "suffix (matchSpaces0 s) s"
  by (simp add: matchSpaces0_def suffix_dropWhile)

lemma matchSpaces0_hd: "matchSpaces0 s = [] \<or> \<not> isWhiteSpace (hd (matchSpaces0 s))"
  unfolding matchSpaces0_def using hd_dropWhile[of isWhiteSpace s] by blast

text \<open>What the phrase leaves is an end piece of the text that does not start with white space.\<close>

lemma matchSearchPhrase_suffix:
  assumes "matchSearchPhrase s = Some r"
  shows "suffix r s \<and> (r = [] \<or> \<not> isWhiteSpace (hd r))"
proof -
  from assms obtain s1 s2 s3 s4 s5 s6 s7 where
    m1: "matchLiteral (js ''search'') s = Some s1" and
    m2: "matchSpaces1 s1 = Some s2" and
    m3: "matchLiteral (js ''on'') s2 = Some s3" and
    m4: "matchSpaces1 s3 = Some s4" and
    m5: "matchLiteral (js ''bing'') s4 = Some s5" and
    m6: "matchSpaces1 s5 = Some s6" and
    m7: "matchToOrFor s6 = Some s7" and
    r: "r = matchSpaces0 (matchSeparator (matchSpaces0 s7))"
    unfolding matchSearchPhrase_def
    by (auto simp: bind_eq_Some_conv)
  have "suffix s7 s"
    using m1 m2 m3 m4 m5 m6 m7
    by (meson matchLiteral_suffix matchSpaces1_suffix matchToOrFor_suffix suffix_order.trans)
  moreover have "suffix r s7"
    unfolding r
    by (meson matchSpaces0_suffix matchSeparator_suffix suffix_order.trans)
  ultimately have "suffix r s" by (rule suffix_order.trans[rotated])
  then show ?thesis unfolding r using matchSpaces0_hd by blast
qed

lemma stripSearchPhrase_isTrimmed: "isTrimmed s \<Longrightarrow> isTrimmed (stripSearchPhrase s)"
proof (cases "matchSearchPhrase s")
  case None
  assume "isTrimmed s"
  with None show ?thesis by (simp add: stripSearchPhrase_def)
next
  case (Some r)
  assume t: "isTrimmed s"
  from Some have "suffix r s" "r = [] \<or> \<not> isWhiteSpace (hd r)"
    using matchSearchPhrase_suffix by blast+
  with t have "isTrimmed r" by (rule isTrimmed_suffix)
  with Some show ?thesis by (simp add: stripSearchPhrase_def)
qed

text \<open>
  On a text that is already trimmed, the two calls of \<open>trim\<close> do nothing, and the
  fallback is the text itself.
\<close>

lemma normalizeExploreQuery_trimmed:
  assumes "trim t = t"
  shows "normalizeExploreQuery t =
           (if stripSearchPhrase t = [] then t else stripSearchPhrase t)"
proof -
  have "isTrimmed t" using isTrimmed_trim[of t] assms by simp
  then have "trim (stripSearchPhrase t) = stripSearchPhrase t"
    by (intro trim_isTrimmed stripSearchPhrase_isTrimmed)
  then show ?thesis
    using assms by (simp add: normalizeExploreQuery_eq)
qed

text \<open>\<open>processCard\<close> stores the title and the description trimmed.\<close>

lemma processCard_fields_trimmed:
  assumes "processCard c ty i = Some info"
  shows "trim (title info) = title info"
    and "description info = Some d \<Longrightarrow> trim d = d"
  using assms
  by (auto simp: processCard_def processCardBody_def awaitThen_def Let_def trim_idem
      split: sum.splits if_splits option.splits)


text \<open>
  So for an activity as discovery builds it, the query is the stored description, or the
  stored title when the description is absent or empty, with the leading phrase
  stripped, and that stored text itself when stripping leaves nothing.
\<close>

lemma getExploreQuery_after_discovery:
  assumes "processCard c ty i = Some info"
  shows "getExploreQuery info =
     (let field = (case description info of
                     Some d \<Rightarrow> if d \<noteq> [] then d else title info
                   | None \<Rightarrow> title info);
          stripped = stripSearchPhrase field
      in if stripped = [] then field else stripped)"
proof -
  have t: "normalizeExploreQuery (title info) =
      (if stripSearchPhrase (title info) = [] then title info else stripSearchPhrase (title info))"
    using processCard_fields_trimmed(1)[OF assms] by (rule normalizeExploreQuery_trimmed)
  show ?thesis
  proof (cases "description info")
    case None
    then show ?thesis by (simp add: getExploreQuery_def Let_def t)
  next
    case (Some d)
    have d: "normalizeExploreQuery d =
        (if stripSearchPhrase d = [] then d else stripSearchPhrase d)"
      using processCard_fields_trimmed(2)[OF assms Some] by (rule normalizeExploreQuery_trimmed)
    show ?thesis
    proof (cases "d = []")
      case True
      with Some show ?thesis by (simp add: getExploreQuery_def Let_def t)
    next
      case False
      then have "normalizeExploreQuery d \<noteq> []" using d by simp
      with False Some show ?thesis by (simp add: getExploreQuery_def Let_def d)
    qed
  qed
qed

subsection \<open>A word in any case\<close>

lemma lowerAscii_eqIgnoreCase:
  "0x61 \<le> p \<Longrightarrow> p \<le> 0x7A \<Longrightarrow> lowerAscii c = p \<longleftrightarrow> eqIgnoreCase p c"
  unfolding lowerAscii_def eqIgnoreCase_def by auto

lemma sameIgnoringCase_matchesWord:
  "list_all (\<lambda>p. 0x61 \<le> p \<and> p \<le> 0x7A) word \<Longrightarrow>
   sameIgnoringCase word w \<longleftrightarrow> matchesWord word w"
proof (induction word arbitrary: w)
  case Nil
  then show ?case by (simp add: sameIgnoringCase_def matchesWord_def)
next
  case (Cons p ps)
  show ?case
  proof (cases w)
    case Nil
    then show ?thesis by (simp add: sameIgnoringCase_def matchesWord_def)
  next
    case (Cons c cs)
    have "sameIgnoringCase ps cs \<longleftrightarrow> matchesWord ps cs"
      using Cons.prems Cons.IH by simp
    moreover have "lowerAscii c = p \<longleftrightarrow> eqIgnoreCase p c"
      using Cons.prems by (intro lowerAscii_eqIgnoreCase) simp_all
    ultimately show ?thesis
      unfolding Cons by (auto simp: sameIgnoringCase_def matchesWord_def)
  qed
qed

lemma phrase_words:
  "sameIgnoringCase (js ''search'') w \<longleftrightarrow> matchesWord (js ''search'') w"
  "sameIgnoringCase (js ''on'') w \<longleftrightarrow> matchesWord (js ''on'') w"
  "sameIgnoringCase (js ''bing'') w \<longleftrightarrow> matchesWord (js ''bing'') w"
  "sameIgnoringCase (js ''to'') w \<longleftrightarrow> matchesWord (js ''to'') w"
  "sameIgnoringCase (js ''for'') w \<longleftrightarrow> matchesWord (js ''for'') w"
  by (rule sameIgnoringCase_matchesWord, simp add: js_def)+

subsection \<open>What the matcher consumes is a phrase\<close>

lemma matchLiteral_split:
  "matchLiteral word s = Some r \<Longrightarrow> \<exists>w. s = w @ r \<and> matchesWord word w"
proof (induction word s rule: matchLiteral.induct)
  case (1 s)
  then show ?case by (simp add: matchesWord_def)
next
  case (2 p ps)
  then show ?case by simp
next
  case (3 p ps c cs)
  then have e: "eqIgnoreCase p c" and m: "matchLiteral ps cs = Some r"
    by (simp_all split: if_splits)
  from 3(1)[OF e m] obtain w where "cs = w @ r" "matchesWord ps w" by blast
  then have "c # cs = (c # w) @ r \<and> matchesWord (p # ps) (c # w)"
    using e by (simp add: matchesWord_def)
  then show ?case by blast
qed

lemma matchSpaces1_split:
  "matchSpaces1 s = Some r \<Longrightarrow> \<exists>g. s = g @ r \<and> g \<noteq> [] \<and> list_all isWhiteSpace g"
proof -
  assume a: "matchSpaces1 s = Some r"
  then obtain c cs where s: "s = c # cs" and c: "isWhiteSpace c"
    and r: "r = dropWhile isWhiteSpace cs"
    by (auto simp: matchSpaces1_def split: list.splits if_splits)
  have "s = (c # takeWhile isWhiteSpace cs) @ r" by (simp add: s r)
  moreover have "list_all isWhiteSpace (c # takeWhile isWhiteSpace cs)"
    using c by (auto simp: list_all_iff dest: set_takeWhileD)
  ultimately show ?thesis by blast
qed

lemma matchSpaces0_split: "\<exists>g. s = g @ matchSpaces0 s \<and> list_all isWhiteSpace g"
proof -
  have "s = takeWhile isWhiteSpace s @ matchSpaces0 s" by (simp add: matchSpaces0_def)
  moreover have "list_all isWhiteSpace (takeWhile isWhiteSpace s)"
    by (auto simp: list_all_iff dest: set_takeWhileD)
  ultimately show ?thesis by blast
qed

lemma matchSeparator_split:
  "\<exists>sep. s = sep @ matchSeparator s \<and> (sep = [] \<or> (\<exists>c. sep = [c] \<and> isSeparator c))"
proof (cases s)
  case Nil
  then show ?thesis by (simp add: matchSeparator_def)
next
  case (Cons c cs)
  show ?thesis
  proof (cases "isSeparator c")
    case True
    then have "s = [c] @ matchSeparator s" using Cons by (simp add: matchSeparator_def isSeparator_def)
    with True show ?thesis by blast
  next
    case False
    then have "s = [] @ matchSeparator s" using Cons by (simp add: matchSeparator_def isSeparator_def)
    then show ?thesis by blast
  qed
qed

lemma matchToOrFor_split:
  "matchToOrFor s = Some r \<Longrightarrow>
   \<exists>w. s = w @ r \<and> (matchesWord (js ''to'') w \<or> matchesWord (js ''for'') w)"
  by (auto simp: matchToOrFor_def split: option.splits dest: matchLiteral_split)

lemma matchSearchPhrase_sound:
  assumes "matchSearchPhrase s = Some r"
  shows "\<exists>p. s = p @ r \<and> isSearchPhrase p"
proof -
  from assms obtain s1 s2 s3 s4 s5 s6 s7 where
    m1: "matchLiteral (js ''search'') s = Some s1" and
    m2: "matchSpaces1 s1 = Some s2" and
    m3: "matchLiteral (js ''on'') s2 = Some s3" and
    m4: "matchSpaces1 s3 = Some s4" and
    m5: "matchLiteral (js ''bing'') s4 = Some s5" and
    m6: "matchSpaces1 s5 = Some s6" and
    m7: "matchToOrFor s6 = Some s7" and
    r: "r = matchSpaces0 (matchSeparator (matchSpaces0 s7))"
    unfolding matchSearchPhrase_def
    by (auto simp: bind_eq_Some_conv)
  from matchLiteral_split[OF m1] obtain w1 where
    w1: "s = w1 @ s1" "matchesWord (js ''search'') w1" by blast
  from matchSpaces1_split[OF m2] obtain g1 where
    g1: "s1 = g1 @ s2" "g1 \<noteq> []" "list_all isWhiteSpace g1" by blast
  from matchLiteral_split[OF m3] obtain w2 where
    w2: "s2 = w2 @ s3" "matchesWord (js ''on'') w2" by blast
  from matchSpaces1_split[OF m4] obtain g2 where
    g2: "s3 = g2 @ s4" "g2 \<noteq> []" "list_all isWhiteSpace g2" by blast
  from matchLiteral_split[OF m5] obtain w3 where
    w3: "s4 = w3 @ s5" "matchesWord (js ''bing'') w3" by blast
  from matchSpaces1_split[OF m6] obtain g3 where
    g3: "s5 = g3 @ s6" "g3 \<noteq> []" "list_all isWhiteSpace g3" by blast
  from matchToOrFor_split[OF m7] obtain w4 where
    w4: "s6 = w4 @ s7"
      "matchesWord (js ''to'') w4 \<or> matchesWord (js ''for'') w4" by blast
  from matchSpaces0_split[of s7] obtain g4 where
    g4: "s7 = g4 @ matchSpaces0 s7" "list_all isWhiteSpace g4" by blast
  from matchSeparator_split[of "matchSpaces0 s7"] obtain sep where
    sep: "matchSpaces0 s7 = sep @ matchSeparator (matchSpaces0 s7)"
      "sep = [] \<or> (\<exists>c. sep = [c] \<and> isSeparator c)" by blast
  from matchSpaces0_split[of "matchSeparator (matchSpaces0 s7)"] obtain g5 where
    g5: "matchSeparator (matchSpaces0 s7) = g5 @ r" "list_all isWhiteSpace g5"
    unfolding r by blast
  define p where "p = w1 @ g1 @ w2 @ g2 @ w3 @ g3 @ w4 @ g4 @ sep @ g5"
  have "s7 = g4 @ sep @ g5 @ r" using g4(1) sep(1) g5(1) by simp
  then have "s = p @ r"
    unfolding p_def using w1(1) g1(1) w2(1) g2(1) w3(1) g3(1) w4(1) by simp
  moreover have "isSearchPhrase p"
    unfolding isSearchPhrase_def p_def phrase_words
    using w1(2) g1(2,3) w2(2) g2(2,3) w3(2) g3(2,3) w4(2) g4(2) sep(2) g5(2) by blast
  ultimately show ?thesis by blast
qed


subsection \<open>Every leading phrase is consumed, and as much of it as there is\<close>

lemma matchLiteral_append:
  "matchesWord word w \<Longrightarrow> matchLiteral word (w @ r) = Some r"
  unfolding matchesWord_def by (induction word w rule: list_all2_induct) simp_all

lemma dropWhile_gap:
  "list_all isWhiteSpace g \<Longrightarrow> dropWhile isWhiteSpace (g @ r) = dropWhile isWhiteSpace r"
  by (induction g) simp_all

lemma matchSpaces1_append:
  "g \<noteq> [] \<Longrightarrow> list_all isWhiteSpace g \<Longrightarrow>
   matchSpaces1 (g @ r) = Some (dropWhile isWhiteSpace r)"
  by (cases g) (simp_all add: matchSpaces1_def dropWhile_gap)

lemma eqIgnoreCase_letter:
  "eqIgnoreCase p c \<Longrightarrow> 0x61 \<le> p \<Longrightarrow> p \<le> 0x7A \<Longrightarrow> \<not> isWhiteSpace c"
  unfolding eqIgnoreCase_def isWhiteSpace_def by auto

lemma word_no_gap:
  assumes "matchesWord (p # ps) w" "0x61 \<le> p" "p \<le> 0x7A"
  shows "dropWhile isWhiteSpace (w @ r) = w @ r"
proof -
  from assms(1) obtain c cs where w: "w = c # cs" and e: "eqIgnoreCase p c"
    by (auto simp: matchesWord_def list_all2_Cons1)
  from eqIgnoreCase_letter[OF e assms(2,3)] show ?thesis by (simp add: w)
qed

lemma matchToOrFor_append:
  assumes "matchesWord (js ''to'') w \<or> matchesWord (js ''for'') w"
  shows "matchToOrFor (w @ r) = Some r"
proof (cases "matchesWord (js ''to'') w")
  case True
  then show ?thesis by (simp add: matchToOrFor_def matchLiteral_append)
next
  case False
  with assms have f: "matchesWord (js ''for'') w" by simp
  then obtain c cs where w: "w = c # cs" and e: "eqIgnoreCase 0x66 c"
    by (auto simp: matchesWord_def js_def list_all2_Cons1)
  then have "\<not> eqIgnoreCase 0x74 c" by (auto simp: eqIgnoreCase_def)
  then have "matchLiteral (js ''to'') (w @ r) = None" by (simp add: js_def w)
  with f show ?thesis by (simp add: matchToOrFor_def matchLiteral_append)
qed

lemma isSeparator_not_space: "isSeparator c \<Longrightarrow> \<not> isWhiteSpace c"
  unfolding isSeparator_def isWhiteSpace_def by auto

lemma phrase_tail_greedy:
  assumes "list_all isWhiteSpace g4" "sep = [] \<or> (\<exists>c. sep = [c] \<and> isSeparator c)"
    "list_all isWhiteSpace g5"
  shows "suffix (matchSpaces0 (matchSeparator (matchSpaces0 (g4 @ sep @ g5 @ r)))) r"
proof (cases "sep = []")
  case True
  have "matchSpaces0 (g4 @ sep @ g5 @ r) = matchSpaces0 r"
    using assms(1,3) True by (simp add: matchSpaces0_def dropWhile_gap)
  moreover have "suffix (matchSpaces0 (matchSeparator (matchSpaces0 r))) r"
    by (meson matchSpaces0_suffix matchSeparator_suffix suffix_order.trans)
  ultimately show ?thesis by simp
next
  case False
  with assms(2) obtain c where sep: "sep = [c]" and c: "isSeparator c" by blast
  have "matchSpaces0 (g4 @ sep @ g5 @ r) = c # g5 @ r"
    using assms(1) isSeparator_not_space[OF c] by (simp add: matchSpaces0_def dropWhile_gap sep)
  moreover have "matchSeparator (c # g5 @ r) = g5 @ r"
    using c by (simp add: matchSeparator_def isSeparator_def)
  moreover have "matchSpaces0 (g5 @ r) = matchSpaces0 r"
    using assms(3) by (simp add: matchSpaces0_def dropWhile_gap)
  ultimately show ?thesis by (simp add: matchSpaces0_suffix)
qed

lemma matchSearchPhrase_complete:
  assumes "s = p @ r" "isSearchPhrase p"
  shows "\<exists>r'. matchSearchPhrase s = Some r' \<and> suffix r' r"
proof -
  from assms(2) obtain w1 g1 w2 g2 w3 g3 w4 g4 sep g5 where
    p: "p = w1 @ g1 @ w2 @ g2 @ w3 @ g3 @ w4 @ g4 @ sep @ g5" and
    w1: "matchesWord (js ''search'') w1" and g1: "g1 \<noteq> []" "list_all isWhiteSpace g1" and
    w2: "matchesWord (js ''on'') w2" and g2: "g2 \<noteq> []" "list_all isWhiteSpace g2" and
    w3: "matchesWord (js ''bing'') w3" and g3: "g3 \<noteq> []" "list_all isWhiteSpace g3" and
    w4: "matchesWord (js ''to'') w4 \<or> matchesWord (js ''for'') w4" and
    g4: "list_all isWhiteSpace g4" and
    sep: "sep = [] \<or> (\<exists>c. sep = [c] \<and> isSeparator c)" and
    g5: "list_all isWhiteSpace g5"
    unfolding isSearchPhrase_def phrase_words by blast
  define t7 where "t7 = g4 @ sep @ g5 @ r"
  define t6 where "t6 = w4 @ t7"
  define t5 where "t5 = g3 @ t6"
  define t4 where "t4 = w3 @ t5"
  define t3 where "t3 = g2 @ t4"
  define t2 where "t2 = w2 @ t3"
  define t1 where "t1 = g1 @ t2"
  have s: "s = w1 @ t1"
    by (simp add: assms(1) p t1_def t2_def t3_def t4_def t5_def t6_def t7_def)
  have m1: "matchLiteral (js ''search'') s = Some t1"
    unfolding s using w1 by (rule matchLiteral_append)
  have "dropWhile isWhiteSpace t2 = t2"
    unfolding t2_def using w2 by (intro word_no_gap[of "0x6F" "[0x6E]"]) (simp_all add: js_def)
  then have m2: "matchSpaces1 t1 = Some t2"
    unfolding t1_def using g1 by (simp add: matchSpaces1_append)
  have m3: "matchLiteral (js ''on'') t2 = Some t3"
    unfolding t2_def using w2 by (rule matchLiteral_append)
  have "dropWhile isWhiteSpace t4 = t4"
    unfolding t4_def using w3 by (intro word_no_gap[of "0x62" "[0x69, 0x6E, 0x67]"]) (simp_all add: js_def)
  then have m4: "matchSpaces1 t3 = Some t4"
    unfolding t3_def using g2 by (simp add: matchSpaces1_append)
  have m5: "matchLiteral (js ''bing'') t4 = Some t5"
    unfolding t4_def using w3 by (rule matchLiteral_append)
  have "dropWhile isWhiteSpace t6 = t6"
    unfolding t6_def using w4
    by (auto intro: word_no_gap[of "0x74" "[0x6F]"] word_no_gap[of "0x66" "[0x6F, 0x72]"]
        simp: js_def)
  then have m6: "matchSpaces1 t5 = Some t6"
    unfolding t5_def using g3 by (simp add: matchSpaces1_append)
  have m7: "matchToOrFor t6 = Some t7"
    unfolding t6_def using w4 by (rule matchToOrFor_append)
  have "matchSearchPhrase s = Some (matchSpaces0 (matchSeparator (matchSpaces0 t7)))"
    by (simp add: matchSearchPhrase_def m1 m2 m3 m4 m5 m6 m7)
  moreover have "suffix (matchSpaces0 (matchSeparator (matchSpaces0 t7))) r"
    unfolding t7_def using g4 sep g5 by (rule phrase_tail_greedy)
  ultimately show ?thesis by blast
qed

lemma isSearchPhrase_nonempty: "isSearchPhrase p \<Longrightarrow> p \<noteq> []"
  by (auto simp: isSearchPhrase_def)

text \<open>\<open>stripSearchPhrase\<close> cuts off the longest leading phrase, and nothing when there is none.\<close>

lemma stripSearchPhrase_spec:
  "(\<exists>p'. s = p' @ stripSearchPhrase s \<and> (p' = [] \<or> isSearchPhrase p'))
   \<and> (\<forall>p r. s = p @ r \<and> isSearchPhrase p \<longrightarrow> suffix (stripSearchPhrase s) r)"
proof (cases "matchSearchPhrase s")
  case None
  have no: "False" if "s = p @ r" "isSearchPhrase p" for p r
    using matchSearchPhrase_complete[OF that] None by simp
  have "stripSearchPhrase s = s" using None by (simp add: stripSearchPhrase_def)
  then have "s = [] @ stripSearchPhrase s \<and> ([] = [] \<or> isSearchPhrase [])" by simp
  then have first: "\<exists>p'. s = p' @ stripSearchPhrase s \<and> (p' = [] \<or> isSearchPhrase p')" ..
  from no have "\<forall>p r. s = p @ r \<and> isSearchPhrase p \<longrightarrow> suffix (stripSearchPhrase s) r"
    by blast
  with first show ?thesis ..
next
  case (Some r')
  have strip: "stripSearchPhrase s = r'" using Some by (simp add: stripSearchPhrase_def)
  from matchSearchPhrase_sound[OF Some] obtain p' where "s = p' @ r'" "isSearchPhrase p'" by blast
  then have "s = p' @ stripSearchPhrase s \<and> (p' = [] \<or> isSearchPhrase p')"
    unfolding strip by simp
  then have first: "\<exists>p'. s = p' @ stripSearchPhrase s \<and> (p' = [] \<or> isSearchPhrase p')" ..
  have "suffix r' r" if "s = p @ r" "isSearchPhrase p" for p r
    using matchSearchPhrase_complete[OF that] Some by simp
  then have "\<forall>p r. s = p @ r \<and> isSearchPhrase p \<longrightarrow> suffix (stripSearchPhrase s) r"
    unfolding strip by blast
  with first show ?thesis ..
qed

lemma trim_spec:
  "isTrimmed (trim s)
   \<and> (\<exists>a b. s = a @ trim s @ b \<and> list_all isWhiteSpace a \<and> list_all isWhiteSpace b)"
proof -
  define z where "z = dropWhile isWhiteSpace s"
  have s: "s = takeWhile isWhiteSpace s @ z" by (simp add: z_def)
  have "rev z = takeWhile isWhiteSpace (rev z) @ dropWhile isWhiteSpace (rev z)" by simp
  then have "z = rev (dropWhile isWhiteSpace (rev z)) @ rev (takeWhile isWhiteSpace (rev z))"
    by (metis rev_append rev_rev_ident)
  then have z: "z = trim s @ rev (takeWhile isWhiteSpace (rev z))"
    by (simp add: trim_def z_def)
  have a: "list_all isWhiteSpace (takeWhile isWhiteSpace s)"
    by (auto simp: list_all_iff dest: set_takeWhileD)
  have b: "list_all isWhiteSpace (rev (takeWhile isWhiteSpace (rev z)))"
    by (auto simp: list_all_iff dest: set_takeWhileD)
  from s z have "s = takeWhile isWhiteSpace s @ trim s @ rev (takeWhile isWhiteSpace (rev z))"
    by simp
  with a b isTrimmed_trim show ?thesis by blast
qed

lemma normalizeExploreQuery_empty: "normalizeExploreQuery d = [] \<longleftrightarrow> trim d = []"
proof (cases "trim d = []")
  case True
  then show ?thesis by (simp add: normalizeExploreQuery_def)
next
  case False
  then show ?thesis by (simp add: normalizeExploreQuery_def Let_def)
qed

lemma isSearchPhrase_example: "isSearchPhrase (js ''Search on Bing for '')"
proof -
  have "js ''Search on Bing for '' =
      js ''Search'' @ js '' '' @ js ''on'' @ js '' '' @ js ''Bing'' @ js '' '' @ js ''for''
        @ js '' '' @ [] @ []"
    by (simp add: js_def)
  moreover have "sameIgnoringCase (js ''search'') (js ''Search'')"
    "sameIgnoringCase (js ''on'') (js ''on'')" "sameIgnoringCase (js ''bing'') (js ''Bing'')"
    "sameIgnoringCase (js ''for'') (js ''for'')"
    by (simp_all add: sameIgnoringCase_def lowerAscii_def js_def)
  moreover have "js '' '' \<noteq> []" "list_all isWhiteSpace (js '' '')" "list_all isWhiteSpace []"
    by (simp_all add: js_def isWhiteSpace_def)
  ultimately show ?thesis
    unfolding isSearchPhrase_def by blast
qed

text \<open>
  C3, as the claim states it, fails on the two cards of \<open>explorePage\<close>. For the first,
  stripping the description leaves the empty string, and the query is the trimmed text
  \<open>Search on Bing for\<close>, not the paragraph as it was. For the second, the description
  is there and blank, and the query is taken from the title.
\<close>

theorem getExploreQuery_untrimmed_counterexample:
  "descriptionText whalesCard = Inr (Some (js '' Search on Bing for ''))
   \<and> descriptionText pizzaCard = Inr (Some (js ''  ''))
   \<and> map description (findClickableActivities explorePage) = [Some (js ''Search on Bing for''), Some []]
   \<and> map getExploreQuery (findClickableActivities explorePage)
       = [js ''Search on Bing for'', js ''best pizza'']
   \<and> js ''Search on Bing for'' \<noteq> js '' Search on Bing for ''
   \<and> js ''best pizza'' \<noteq> js ''  '' \<and> js ''best pizza'' \<noteq> []"
  by (simp add: explorePage_def whalesCard_def pizzaCard_def findClickableActivities_def
      processCard_def processCardBody_def awaitThen_def Let_def
      getExploreQuery_def normalizeExploreQuery_def
      stripSearchPhrase_def matchSearchPhrase_def matchToOrFor_def matchSpaces1_def
      matchSpaces0_def matchSeparator_def eqIgnoreCase_def trim_def isWhiteSpace_def js_def)

text \<open>
  C3, amended. The query comes from the description, or from the title when the
  description is absent or blank. The text of that field is trimmed, its longest leading
  phrase \<open>search on Bing to/for\<close> with an optional colon, hyphen or en dash is cut off,
  in whatever case it is written, and the rest is trimmed again; when that leaves the
  empty string, the query is the trimmed text of the field. Here \<open>stripSearchPhrase\<close>
  cuts off a phrase or nothing, and what it leaves is an end piece of what any leading
  phrase leaves; \<open>trim\<close> takes white space, and only white space, off both ends.
\<close>

theorem getExploreQuery_strips_longest_phrase:
  "getExploreQuery a =
     (let field = (case description a of
                     Some d \<Rightarrow> if trim d = [] then title a else d
                   | None \<Rightarrow> title a);
          stripped = trim (stripSearchPhrase (trim field))
      in if stripped = [] then trim field else stripped)
   \<and> (\<exists>p'. s = p' @ stripSearchPhrase s \<and> (p' = [] \<or> isSearchPhrase p'))
   \<and> (\<forall>p r. s = p @ r \<and> isSearchPhrase p \<longrightarrow> suffix (stripSearchPhrase s) r)
   \<and> isTrimmed (trim s)
   \<and> (\<exists>b c. s = b @ trim s @ c \<and> list_all isWhiteSpace b \<and> list_all isWhiteSpace c)"
proof -
  have query: "getExploreQuery a =
     (let field = (case description a of
                     Some d \<Rightarrow> if trim d = [] then title a else d
                   | None \<Rightarrow> title a);
          stripped = trim (stripSearchPhrase (trim field))
      in if stripped = [] then trim field else stripped)"
  proof (cases "description a")
    case None
    then show ?thesis
      by (simp add: getExploreQuery_def Let_def normalizeExploreQuery_eq)
  next
    case (Some d)
    show ?thesis
    proof (cases "trim d = []")
      case True
      then have "normalizeExploreQuery d = []" by (simp add: normalizeExploreQuery_empty)
      with True Some show ?thesis
        by (simp add: getExploreQuery_def Let_def normalizeExploreQuery_eq[of "title a"])
    next
      case False
      then have "normalizeExploreQuery d \<noteq> []" "d \<noteq> []"
        by (auto simp: normalizeExploreQuery_empty trim_Nil)
      with False Some show ?thesis
        by (simp add: getExploreQuery_def Let_def normalizeExploreQuery_eq[symmetric])
    qed
  qed
  from query stripSearchPhrase_spec[of s] trim_spec[of s] show ?thesis by blast
qed

theorem getExploreQuery_strips_longest_phrase_witness:
  "js ''Search on Bing for best pizza'' = js ''Search on Bing for '' @ js ''best pizza''
   \<and> isSearchPhrase (js ''Search on Bing for '')
   \<and> suffix (stripSearchPhrase (js ''Search on Bing for best pizza'')) (js ''best pizza'')"
proof -
  have split: "js ''Search on Bing for best pizza'' = js ''Search on Bing for '' @ js ''best pizza''"
    by (simp add: js_def)
  from getExploreQuery_strips_longest_phrase
    [of "entryOf pizzaCard Explore 0" "js ''Search on Bing for best pizza''"]
  have "\<forall>p r. js ''Search on Bing for best pizza'' = p @ r \<and> isSearchPhrase p
          \<longrightarrow> suffix (stripSearchPhrase (js ''Search on Bing for best pizza'')) r"
    by blast
  with split isSearchPhrase_example show ?thesis by blast
qed


end
